theory Spec2Isabelle
  imports Complex_Main
begin

section \<open>Attention-model route construction for the capacitated VRP (nn.py)\<close>

text \<open>
  The development embeds \<^verbatim>\<open>decode_greedy\<close>, its loop body \<^verbatim>\<open>decode_iteration\<close>, the logit
  masking of \<^verbatim>\<open>PointerDecoder.__call__\<close>, \<^verbatim>\<open>AttentionModel.solve\<close> and \<^verbatim>\<open>get_cost\<close>.

  Conventions.
  \<^item> A batched array of shape \<open>(bs, n)\<close> is a list of \<open>bs\<close> rows, each a list of length \<open>n\<close>.
    A vectorised statement of the source indexed by \<^verbatim>\<open>jnp.arange(bs)\<close> is a \<open>map\<close> over
    \<open>[0..<bs]\<close>.
  \<^item> Floating-point numbers are ideal reals, extended by the two special values the code
    can produce: minus infinity (written by the decoder on forbidden nodes) and NaN
    (the log-softmax of a row that is minus infinity everywhere). Rounding is not
    modelled; where a property depends on it, this is said.
  \<^item> The \<^verbatim>\<open>visited\<close> array holds the integers 0 and 1 only and is combined with boolean
    arrays by \<^verbatim>\<open>&\<close> and \<^verbatim>\<open>|\<close>; it is modelled as booleans. \<^verbatim>\<open>~\<close> is applied to boolean
    arrays only (\<^verbatim>\<open>~customer_mask\<close> and the result of \<^verbatim>\<open>.all\<close>), where it is negation.
  \<^item> The loop is stated for any encoder and decoder, the fields of the record \<open>externals\<close>.
    The encoder and the decoder of the source are embedded over the layers of flax and
    the primitives of \<^verbatim>\<open>jax.random\<close>, which are library code and the fields of the record
    \<open>library\<close>; \<open>attention_model\<close> puts them into \<open>externals\<close>.
\<close>

subsection \<open>Numbers with minus infinity and NaN\<close>

datatype fnum = NaN | NegInf | Fin real

fun fnum_less :: "fnum \<Rightarrow> fnum \<Rightarrow> bool" where
  "fnum_less NegInf (Fin b) = True"
| "fnum_less (Fin a) (Fin b) = (a < b)"
| "fnum_less x y = False"

text \<open>Addition as the code can meet it: no operand is ever plus infinity.\<close>

fun fnum_add :: "fnum \<Rightarrow> fnum \<Rightarrow> fnum" where
  "fnum_add (Fin a) (Fin b) = Fin (a + b)"
| "fnum_add NaN y = NaN"
| "fnum_add x NaN = NaN"
| "fnum_add NegInf y = NegInf"
| "fnum_add x NegInf = NegInf"

fun fnum_exp :: "fnum \<Rightarrow> real" where
  "fnum_exp (Fin a) = exp a"
| "fnum_exp x = 0"

subsection \<open>Array primitives of jax.numpy\<close>

text \<open>
  Reading an array at an index out of range: JAX clamps the index into the array.
  (Writing out of range with \<^verbatim>\<open>.at[i].set\<close> is dropped, which is what list update does.)
\<close>

definition gather :: "'a list \<Rightarrow> nat \<Rightarrow> 'a" where
  "gather xs i = xs ! min i (length xs - 1)"

text \<open>
  \<^verbatim>\<open>jnp.argmax\<close>: the first index holding the maximum; a NaN counts as the maximum.
  \<open>argmax_from bi bv i xs\<close> scans \<open>xs\<close>, whose first element has index \<open>i\<close>, with the best
  index \<open>bi\<close> and best value \<open>bv\<close> so far.
\<close>

definition beats :: "fnum \<Rightarrow> fnum \<Rightarrow> bool" where
  "beats x bv = (bv \<noteq> NaN \<and> (x = NaN \<or> fnum_less bv x))"

primrec argmax_from :: "nat \<Rightarrow> fnum \<Rightarrow> nat \<Rightarrow> fnum list \<Rightarrow> nat" where
  "argmax_from bi bv i [] = bi"
| "argmax_from bi bv i (x # xs) =
     (if beats x bv then argmax_from i x (Suc i) xs else argmax_from bi bv (Suc i) xs)"

definition argmax :: "fnum list \<Rightarrow> nat" where
  "argmax xs = (case xs of [] \<Rightarrow> 0 | x # ys \<Rightarrow> argmax_from 0 x 1 ys)"

text \<open>
  \<^verbatim>\<open>nn.log_softmax\<close> along the last axis: \<open>x\<^sub>i - ln (\<Sum>\<^sub>j exp x\<^sub>j)\<close>. A row that is minus
  infinity everywhere (or holds a NaN) gives NaN everywhere.
\<close>

definition log_softmax :: "fnum list \<Rightarrow> fnum list" where
  "log_softmax xs =
     (if list_ex (\<lambda>x. x = NaN) xs \<or> list_all (\<lambda>x. x = NegInf) xs then map (\<lambda>x. NaN) xs
      else map (\<lambda>x. case x of Fin a \<Rightarrow> Fin (a - ln (sum_list (map fnum_exp xs))) | y \<Rightarrow> y) xs)"

text \<open>\<^verbatim>\<open>jax.lax.fori_loop(lower, upper, body, init)\<close>.\<close>

definition fori_loop :: "nat \<Rightarrow> nat \<Rightarrow> (nat \<Rightarrow> 's \<Rightarrow> 's) \<Rightarrow> 's \<Rightarrow> 's" where
  "fori_loop lower upper body init = fold body [lower..<upper] init"

subsection \<open>Problems, and the encoder and decoder as parameters\<close>

text \<open>\<^verbatim>\<open>VRP = Tuple[coords, demands]\<close>: coordinates \<open>(bs, n, 2)\<close> and demands \<open>(bs, n)\<close>.\<close>

type_synonym VRP = "real list list list \<times> real list list"

text \<open>\<^verbatim>\<open>VRPDecoderState\<close>: current node and remaining capacity of every batch element.\<close>

type_synonym VRPDecoderState = "nat list \<times> real list"

type_synonym NodeMask = "bool list list"

text \<open>
  What the loop calls, for a type \<open>'k\<close> of PRNG keys, a type \<open>'e\<close> of encoded graphs and types
  \<open>'pe\<close>, \<open>'pd\<close> of encoder and decoder parameters (\<open>attention_model\<close> below fills the fields
  with the networks of the source):
  \<^item> \<open>random_split\<close> is \<^verbatim>\<open>jax.random.split(rng)\<close>, \<open>random_split_n\<close> is
    \<^verbatim>\<open>jax.random.split(rng, n)\<close>;
  \<^item> \<open>random_choice key a logits\<close> is \<^verbatim>\<open>jax.random.choice(key, a, p=nn.softmax(logits))\<close>;
  \<^item> \<open>encoder_apply\<close> is \<^verbatim>\<open>self.encoder.apply\<close> with its parameters, the problems, the
    dropout key and the \<^verbatim>\<open>deterministic\<close> flag;
  \<^item> \<open>decoder_scores\<close> is the network of \<^verbatim>\<open>PointerDecoder.__call__\<close> up to
    \<^verbatim>\<open>clip * tanh(logits)\<close>, a finite score for batch element \<open>b\<close> and node \<open>j\<close>. It
    receives the mask, which the source hands to the inner attention.
\<close>

record ('k, 'e, 'pe, 'pd) externals =
  random_split :: "'k \<Rightarrow> 'k \<times> 'k"
  random_split_n :: "'k \<Rightarrow> nat \<Rightarrow> 'k list"
  random_choice :: "'k \<Rightarrow> nat \<Rightarrow> fnum list \<Rightarrow> nat"
  encoder_apply :: "'pe \<Rightarrow> 'k \<Rightarrow> VRP \<Rightarrow> bool \<Rightarrow> 'e"
  decoder_scores :: "'pd \<Rightarrow> 'k \<Rightarrow> 'e \<Rightarrow> VRPDecoderState \<Rightarrow> NodeMask \<Rightarrow> bool \<Rightarrow> nat \<Rightarrow> nat \<Rightarrow> real"

subsection \<open>PointerDecoder: masking of the logits\<close>

text \<open>
  \<^verbatim>\<open>logits = jnp.where(mask[:, None, :], -inf, logits); return logits[:, 0]\<close>
\<close>

definition PointerDecoder_call ::
  "('k, 'e, 'pe, 'pd) externals \<Rightarrow> 'pd \<Rightarrow> 'k \<Rightarrow> 'e \<Rightarrow> VRPDecoderState \<Rightarrow> NodeMask \<Rightarrow> bool
     \<Rightarrow> fnum list list" where
  "PointerDecoder_call ext decoder_params rng node_embeddings states node_mask deterministic =
     (let logits = decoder_scores ext decoder_params rng node_embeddings states node_mask deterministic
      in map (\<lambda>b. map (\<lambda>j. if node_mask ! b ! j then NegInf else Fin (logits b j))
                     [0..<length (node_mask ! b)])
             [0..<length node_mask])"

subsection \<open>The decode loop\<close>

record 'k loop_state =
  rng :: 'k
  sequences :: "nat list list"
  visited :: "bool list list"
  capacities :: "real list"
  log_probs :: "fnum list"

text \<open>
  \<^verbatim>\<open>bs = coords.shape[0]\<close> and \<^verbatim>\<open>seq_len = coords.shape[1]\<close>. A list of rows carries no
  second dimension when it is empty; an empty batch has no batch element to speak of, and
  its \<open>seq_length\<close> is taken as 0.
\<close>

definition batch_size :: "VRP \<Rightarrow> nat" where
  "batch_size problems = length (fst problems)"

definition seq_length :: "VRP \<Rightarrow> nat" where
  "seq_length problems = (case fst problems of [] \<Rightarrow> 0 | c # cs \<Rightarrow> length c)"

text \<open>\<^verbatim>\<open>customer_mask = jnp.ones((bs, seq_len), dtype=bool).at[:, 0].set(0)\<close>\<close>

definition customer_mask :: "nat \<Rightarrow> nat \<Rightarrow> bool list list" where
  "customer_mask bs seq_len = replicate bs ((replicate seq_len True)[0 := False])"

text \<open>
  Row \<open>b\<close> of \<^verbatim>\<open>next_node_mask\<close> (true means forbidden), in the three statements of the
  source: visited customers and demands above the capacity; the current node; the depot.
\<close>

definition next_node_mask_row ::
  "nat \<Rightarrow> bool list \<Rightarrow> real list \<Rightarrow> bool list \<Rightarrow> real \<Rightarrow> nat \<Rightarrow> bool list" where
  "next_node_mask_row seq_len cmask dem vis cap current_node =
     (let mask1 = map (\<lambda>j. (vis ! j \<and> cmask ! j) \<or> dem ! j > cap) [0..<seq_len];
          mask2 = mask1[current_node := True];
          mask3 = mask2[0 := (\<not> list_all (\<lambda>j. vis ! j \<or> \<not> cmask ! j) [0..<seq_len])
                              \<and> mask2 ! 0]
      in mask3)"

definition step_mask :: "VRP \<Rightarrow> nat \<Rightarrow> 'k loop_state \<Rightarrow> NodeMask" where
  "step_mask problems idx st =
     (let bs = batch_size problems; seq_len = seq_length problems
      in map (\<lambda>b. next_node_mask_row seq_len (customer_mask bs seq_len ! b) (snd problems ! b)
                     (visited st ! b) (capacities st ! b) (sequences st ! b ! (idx - 1)))
             [0..<bs])"

text \<open>The logits of one iteration: the decoder called on the state and its mask.\<close>

definition step_logits ::
  "('k, 'e, 'pe, 'pd) externals \<Rightarrow> 'pd \<Rightarrow> 'e \<Rightarrow> VRP \<Rightarrow> bool \<Rightarrow> nat \<Rightarrow> 'k loop_state
     \<Rightarrow> fnum list list" where
  "step_logits ext decoder_params encoded problems deterministic idx st =
     (let current_node = map (\<lambda>s. s ! (idx - 1)) (sequences st);
          decoder_step_rng = snd (random_split ext (rng st))
      in PointerDecoder_call ext decoder_params decoder_step_rng encoded
           (current_node, capacities st) (step_mask problems idx st) deterministic)"

text \<open>The nodes chosen in one iteration, and the key carried on.\<close>

definition step_next ::
  "('k, 'e, 'pe, 'pd) externals \<Rightarrow> VRP \<Rightarrow> bool \<Rightarrow> 'k loop_state \<Rightarrow> fnum list list
     \<Rightarrow> 'k \<times> nat list" where
  "step_next ext problems deterministic st logits =
     (let bs = batch_size problems; seq_len = seq_length problems;
          rng1 = fst (random_split ext (rng st))
      in if deterministic then (rng1, map argmax logits)
         else (let (rng2, sample_rng) = random_split ext rng1;
                   rngs = random_split_n ext sample_rng bs
               in (rng2, map (\<lambda>b. random_choice ext (rngs ! b) seq_len (logits ! b)) [0..<bs])))"

text \<open>
  The loop body \<^verbatim>\<open>decode_iteration(idx, loop_state)\<close>: the mask (\<open>step_mask\<close>), the decoder
  call (\<open>step_logits\<close>), the selection (\<open>step_next\<close>), and the update of the route, the visited
  flags, the capacities (reset to 1 at the depot) and the log-probabilities.
\<close>

definition decode_iteration ::
  "('k, 'e, 'pe, 'pd) externals \<Rightarrow> 'pd \<Rightarrow> 'e \<Rightarrow> VRP \<Rightarrow> bool \<Rightarrow> nat \<Rightarrow> 'k loop_state
     \<Rightarrow> 'k loop_state" where
  "decode_iteration ext decoder_params encoded problems deterministic idx st =
     (let bs = batch_size problems;
          dems = snd problems;
          logits = step_logits ext decoder_params encoded problems deterministic idx st;
          (rng', next_nodes) = step_next ext problems deterministic st logits
      in \<lparr> rng = rng',
           sequences = map (\<lambda>b. (sequences st ! b)[idx := next_nodes ! b]) [0..<bs],
           visited = map (\<lambda>b. (visited st ! b)[next_nodes ! b := True]) [0..<bs],
           capacities = map (\<lambda>b. if next_nodes ! b = 0 then 1
                                   else capacities st ! b - gather (dems ! b) (next_nodes ! b))
                            [0..<bs],
           log_probs = map (\<lambda>b. fnum_add (log_probs st ! b)
                                    (gather (log_softmax (logits ! b)) (next_nodes ! b)))
                           [0..<bs] \<rparr>)"

text \<open>The state before the loop, once the encoder key has been split off.\<close>

definition decode_init :: "'k \<Rightarrow> VRP \<Rightarrow> 'k loop_state" where
  "decode_init rng1 problems =
     (let bs = batch_size problems; seq_len = seq_length problems
      in \<lparr> rng = rng1,
           sequences = replicate bs (replicate (2 * seq_len) 0),
           visited = replicate bs ((replicate seq_len False)[0 := True]),
           capacities = replicate bs 1,
           log_probs = replicate bs (Fin 0) \<rparr>)"

text \<open>
  The loop state after the iterations \<open>1, \<dots>, t\<close>; the loop of the source is
  \<^verbatim>\<open>fori_loop(1, 2 * seq_len, decode_iteration, init)\<close>.
\<close>

definition decode_state ::
  "('k, 'e, 'pe, 'pd) externals \<Rightarrow> 'pe \<times> 'pd \<Rightarrow> 'k \<Rightarrow> VRP \<Rightarrow> bool \<Rightarrow> nat \<Rightarrow> 'k loop_state" where
  "decode_state ext params rng0 problems deterministic t =
     (let (rng1, encoder_rng) = random_split ext rng0;
          encoded = encoder_apply ext (fst params) encoder_rng problems deterministic
      in fori_loop 1 (Suc t) (decode_iteration ext (snd params) encoded problems deterministic)
           (decode_init rng1 problems))"

definition decode_greedy ::
  "('k, 'e, 'pe, 'pd) externals \<Rightarrow> 'pe \<times> 'pd \<Rightarrow> 'k \<Rightarrow> VRP \<Rightarrow> bool
     \<Rightarrow> nat list list \<times> fnum list" where
  "decode_greedy ext params rng0 problems deterministic =
     (let (rng1, encoder_rng) = random_split ext rng0;
          encoded = encoder_apply ext (fst params) encoder_rng problems deterministic;
          final = fori_loop 1 (2 * seq_length problems)
                    (decode_iteration ext (snd params) encoded problems deterministic)
                    (decode_init rng1 problems)
      in (sequences final, log_probs final))"

subsection \<open>Cost of a route\<close>

definition get_cost :: "real list list \<Rightarrow> nat list \<Rightarrow> real" where
  "get_cost coords route =
     (let max_size = length coords;
          src = replicate max_size coords;
          tgt = map (\<lambda>c. replicate max_size c) coords;
          distances = map (\<lambda>i. map (\<lambda>j. sqrt (sum_list (map (\<lambda>(a, b). (a - b)\<^sup>2)
                                                 (zip (tgt ! i ! j) (src ! i ! j)))))
                                 [0..<max_size])
                          [0..<max_size];
          srcs = butlast route;
          dsts = tl route;
          step_distances = map (\<lambda>(s, d). gather (gather distances s) d) (zip srcs dsts)
      in sum_list step_distances)"

definition get_costs :: "real list list list \<Rightarrow> nat list list \<Rightarrow> real list" where
  "get_costs coords routes = map (\<lambda>(c, r). get_cost c r) (zip coords routes)"

subsection \<open>AttentionModel.solve\<close>

definition solve ::
  "('k, 'e, 'pe, 'pd) externals \<Rightarrow> 'pe \<times> 'pd \<Rightarrow> 'k \<Rightarrow> VRP \<Rightarrow> bool
     \<Rightarrow> real list \<times> fnum list \<times> nat list list" where
  "solve ext params rng0 problems deterministic =
     (let (routes, lps) = decode_greedy ext params rng0 problems deterministic;
          costs = get_costs (fst problems) routes
      in (costs, lps, routes))"

subsection \<open>Input conditions\<close>

text \<open>The shapes \<open>(bs, n, _)\<close> of the coordinates and \<open>(bs, n)\<close> of the demands.\<close>

definition well_shaped :: "VRP \<Rightarrow> bool" where
  "well_shaped problems =
     (length (snd problems) = batch_size problems \<and>
      list_all (\<lambda>c. length c = seq_length problems) (fst problems) \<and>
      list_all (\<lambda>d. length d = seq_length problems) (snd problems))"

text \<open>One row of demands: the depot's demand is 0 and no customer demands more than 1.\<close>

definition row_fits :: "real list \<Rightarrow> bool" where
  "row_fits dem = (case dem of [] \<Rightarrow> True | x # xs \<Rightarrow> x = 0 \<and> list_all (\<lambda>y. y \<le> 1) xs)"

definition demands_fit :: "VRP \<Rightarrow> bool" where
  "demands_fit problems = list_all row_fits (snd problems)"

definition demands_nonneg :: "VRP \<Rightarrow> bool" where
  "demands_nonneg problems = list_all (list_all (\<lambda>y. 0 \<le> y)) (snd problems)"

text \<open>
  The contract of categorical sampling: on a row of logits without NaN that is not minus
  infinity everywhere, the index drawn has a positive probability, that is a logit other
  than minus infinity.
\<close>

definition sampler_sound :: "('k, 'e, 'pe, 'pd) externals \<Rightarrow> bool" where
  "sampler_sound ext =
     (\<forall>key a xs. \<not> list_ex (\<lambda>x. x = NaN) xs \<and> list_ex (\<lambda>x. x \<noteq> NegInf) xs \<longrightarrow>
        random_choice ext key a xs < length xs \<and> xs ! random_choice ext key a xs \<noteq> NegInf)"

text \<open>
  An encoder and a decoder that do not read their key under \<^verbatim>\<open>deterministic=True\<close>. This is
  proved of the networks of the source below, from the contract of the flax layers.
\<close>

definition layers_ignore_key :: "('k, 'e, 'pe, 'pd) externals \<Rightarrow> bool" where
  "layers_ignore_key ext =
     ((\<forall>pe k k' problems. encoder_apply ext pe k problems True = encoder_apply ext pe k' problems True) \<and>
      (\<forall>pd k k' e s m. decoder_scores ext pd k e s m True = decoder_scores ext pd k' e s m True))"

subsection \<open>One batch element of the loop\<close>

text \<open>
  Row \<open>b\<close> of the loop state: the route, the visited flags and the remaining capacity of
  batch element \<open>b\<close>.
\<close>

definition row_of :: "'k loop_state \<Rightarrow> nat \<Rightarrow> nat list \<times> bool list \<times> real" where
  "row_of st b = (sequences st ! b, visited st ! b, capacities st ! b)"

text \<open>
  What action selection guarantees about the node \<open>n\<close> chosen under the mask \<open>m\<close>: a node
  that is not forbidden when there is one; when every node is forbidden, argmax over a row
  of minus infinities returns index 0.
\<close>

definition picks :: "bool \<Rightarrow> bool list \<Rightarrow> nat \<Rightarrow> bool" where
  "picks deterministic m n =
     (if list_ex (\<lambda>x. \<not> x) m then n < length m \<and> \<not> m ! n else (deterministic \<longrightarrow> n = 0))"

text \<open>
  The rows a batch element can be in after \<open>t\<close> iterations: iteration \<open>Suc t\<close> reads the
  current node at position \<open>t\<close>, builds the mask and writes the chosen node at \<open>Suc t\<close>.
\<close>

inductive row_reach ::
  "bool \<Rightarrow> real list \<Rightarrow> nat \<Rightarrow> nat \<Rightarrow> nat list \<times> bool list \<times> real \<Rightarrow> bool"
  for deterministic :: bool and dem :: "real list" and seq_len :: nat where
  reach_init:
    "row_reach deterministic dem seq_len 0
       (replicate (2 * seq_len) 0, (replicate seq_len False)[0 := True], 1)"
| reach_step:
    "row_reach deterministic dem seq_len t (s, v, c) \<Longrightarrow>
     Suc t < 2 * seq_len \<Longrightarrow>
     picks deterministic
       (next_node_mask_row seq_len ((replicate seq_len True)[0 := False]) dem v c (s ! t)) n \<Longrightarrow>
     row_reach deterministic dem seq_len (Suc t)
       (s[Suc t := n], v[n := True], if n = 0 then 1 else c - gather dem n)"

subsection \<open>Example inputs\<close>

text \<open>
  Library parameters for the examples: keys are trivial, every score is 0, and sampling
  picks the first node of highest probability.
\<close>

definition demo_ext :: "(unit, unit, unit, unit) externals" where
  "demo_ext = \<lparr> random_split = (\<lambda>k. (k, k)), random_split_n = (\<lambda>k n. replicate n k),
      random_choice = (\<lambda>k a xs. argmax xs), encoder_apply = (\<lambda>p k v d. ()),
      decoder_scores = (\<lambda>p k e s m d b j. 0) \<rparr>"

text \<open>One instance: the depot at \<open>(0, 0)\<close> and one customer at \<open>(1, 0)\<close> with demand \<open>1/2\<close>.\<close>

definition demo_problem :: VRP where
  "demo_problem = ([[[0, 0], [1, 0]]], [[0, 1 / 2]])"


text \<open>The node chosen for batch element \<open>b\<close> in one iteration: entry \<open>b\<close> of \<^verbatim>\<open>next_nodes\<close>.\<close>

definition step_node :: "('k, 'e, 'pe, 'pd) externals \<Rightarrow> 'pd \<Rightarrow> 'e \<Rightarrow> VRP \<Rightarrow> bool \<Rightarrow> nat \<Rightarrow> 'k loop_state \<Rightarrow> nat \<Rightarrow> nat" where
  "step_node ext pd enc P det idx st b =
     snd (step_next ext P det st (step_logits ext pd enc P det idx st)) ! b"

subsection \<open>The length of a route, as the specification words it\<close>

text \<open>
  The straight-line distance between two points, and the total over the consecutive pairs
  of a route. These two definitions follow the specification; \<open>get_cost\<close> above follows
  the source, which reads a matrix of all pairwise distances.
\<close>

definition euclidean :: "real list \<Rightarrow> real list \<Rightarrow> real" where
  "euclidean p q = sqrt (sum_list (map (\<lambda>(a, b). (a - b)\<^sup>2) (zip p q)))"

definition route_length :: "real list list \<Rightarrow> nat list \<Rightarrow> real" where
  "route_length coords route =
     (\<Sum>i<length route - 1. euclidean (coords ! (route ! i)) (coords ! (route ! Suc i)))"

text \<open>
  The logits of iteration \<open>idx\<close> of a run of \<open>decode_greedy\<close>: the decoder called on the loop
  state after the iterations \<open>1, \<dots>, idx - 1\<close>.
\<close>

definition decode_logits ::
  "('k, 'e, 'pe, 'pd) externals \<Rightarrow> 'pe \<times> 'pd \<Rightarrow> 'k \<Rightarrow> VRP \<Rightarrow> bool \<Rightarrow> nat \<Rightarrow> fnum list list" where
  "decode_logits ext params rng0 problems deterministic idx =
     (let (rng1, encoder_rng) = random_split ext rng0;
          encoded = encoder_apply ext (fst params) encoder_rng problems deterministic
      in step_logits ext (snd params) encoded problems deterministic idx
           (decode_state ext params rng0 problems deterministic (idx - 1)))"

subsection \<open>PointerDecoder: the mask handed to the inner attention\<close>

text \<open>
  \<^verbatim>\<open>Q2 = self.mha(Q1, node_embeddings, mask=mask[:, None, None, :])\<close>, where \<^verbatim>\<open>self.mha\<close> is
  \<^verbatim>\<open>flax.linen.MultiHeadDotProductAttention\<close>. The layer is library code; its documented
  contract for the argument is "Attention weights are masked out if their corresponding
  mask value is False": before the softmax, the score of a key is kept where the mask is
  true and replaced by the most negative finite number \<open>big_neg\<close> where it is false.
  \<open>flax_attention_weights\<close> is that contract for one query and one head.
\<close>

definition flax_attention_weights :: "real \<Rightarrow> bool list \<Rightarrow> real list \<Rightarrow> real list" where
  "flax_attention_weights big_neg keep scores =
     (let masked = map (\<lambda>(m, a). if m then a else big_neg) (zip keep scores);
          z = sum_list (map exp masked)
      in map (\<lambda>x. exp x / z) masked)"

text \<open>
  The source hands the forbidden-node mask of one batch element to the layer as it is
  (the two \<^verbatim>\<open>None\<close> axes broadcast it over heads and queries).
\<close>

definition PointerDecoder_mha_weights :: "real \<Rightarrow> bool list \<Rightarrow> real list \<Rightarrow> real list" where
  "PointerDecoder_mha_weights big_neg node_mask scores =
     flax_attention_weights big_neg node_mask scores"

subsection \<open>The networks of the source over the flax layers\<close>

text \<open>
  The library the networks are built from, for a type \<open>'k\<close> of PRNG keys and a type \<open>'w\<close> of
  the weights of one layer. A tensor of shape \<open>(bs, n, d)\<close> is a list of \<open>bs\<close> lists of \<open>n\<close>
  vectors.
  \<^item> \<open>jax_random_split\<close>, \<open>jax_random_split_n\<close>, \<open>jax_random_choice\<close>: as in \<open>externals\<close>.
  \<^item> \<open>flax_make_rng key i\<close>: the key flax derives from the \<^verbatim>\<open>"dropout"\<close> key of \<^verbatim>\<open>apply\<close> for
    the \<open>i\<close>-th submodule of a module.
  \<^item> \<open>nn_Dense w\<close> and \<open>nn_LayerNorm w\<close> act on the last axis; they take no key.
  \<^item> \<open>nn_Dropout rate deterministic key x\<close> is \<^verbatim>\<open>nn.Dropout(rate)(x, deterministic)\<close>.
  \<^item> \<open>nn_MultiHeadDotProductAttention w dropout_rate deterministic key inputs_q inputs_kv mask\<close>
    is the attention layer; \<open>deterministic\<close> and \<open>mask\<close> are \<open>None\<close> when the call does not
    give them. The mask has the shape \<open>(bs, heads, queries, keys)\<close> of the source's
    \<^verbatim>\<open>mask[:, None, None, :]\<close>.
\<close>

record ('k, 'w) library =
  jax_random_split :: "'k \<Rightarrow> 'k \<times> 'k"
  jax_random_split_n :: "'k \<Rightarrow> nat \<Rightarrow> 'k list"
  jax_random_choice :: "'k \<Rightarrow> nat \<Rightarrow> fnum list \<Rightarrow> nat"
  flax_make_rng :: "'k \<Rightarrow> nat \<Rightarrow> 'k"
  nn_Dense :: "'w \<Rightarrow> real list \<Rightarrow> real list"
  nn_LayerNorm :: "'w \<Rightarrow> real list \<Rightarrow> real list"
  nn_Dropout :: "real \<Rightarrow> bool \<Rightarrow> 'k \<Rightarrow> real list list list \<Rightarrow> real list list list"
  nn_MultiHeadDotProductAttention ::
    "'w \<Rightarrow> real \<Rightarrow> bool option \<Rightarrow> 'k \<Rightarrow> real list list list \<Rightarrow> real list list list
       \<Rightarrow> bool list list list list option \<Rightarrow> real list list list"

text \<open>The dataclass \<^verbatim>\<open>AttentionModel\<close> and the weights of its modules.\<close>

record AttentionModel =
  embed_dim :: nat
  num_heads :: nat
  num_layers :: nat
  ff_dim :: nat
  clip :: real

record 'w TransformerEncoderBlock_params =
  block_mha :: 'w
  block_mlp1 :: 'w
  block_mlp2 :: 'w
  block_norm1 :: 'w
  block_norm2 :: 'w

record 'w VRPEncoder_params =
  encode_depot :: 'w
  encode_customers :: 'w
  encoder_blocks :: "'w TransformerEncoderBlock_params list"

record 'w PointerDecoder_params =
  encode_state :: 'w
  encode_graph :: 'w
  encode_capacity :: 'w
  Wk :: 'w
  Wq :: 'w
  decoder_mha :: 'w

text \<open>Elementwise sum of two tensors, \<^verbatim>\<open>nn.relu\<close>, the sum over the node axis, the dot product.\<close>

definition tensor_add :: "real list list list \<Rightarrow> real list list list \<Rightarrow> real list list list" where
  "tensor_add x y = map (\<lambda>(xb, yb). map (\<lambda>(xn, yn). map (\<lambda>(a, b). a + b) (zip xn yn)) (zip xb yb)) (zip x y)"

definition relu :: "real \<Rightarrow> real" where
  "relu a = max 0 a"

definition sum_nodes :: "real list list \<Rightarrow> real list" where
  "sum_nodes rows = (case rows of [] \<Rightarrow> [] | r # rs \<Rightarrow> foldl (\<lambda>acc v. map (\<lambda>(a, b). a + b) (zip acc v)) r rs)"

definition dot :: "real list \<Rightarrow> real list \<Rightarrow> real" where
  "dot u v = sum_list (map (\<lambda>(a, b). a * b) (zip u v))"

text \<open>
  \<^verbatim>\<open>VRPNodeEmbedding.__call__\<close>: the depot's coordinates through one dense layer, every
  customer's coordinates and demand through another, concatenated along the node axis.
\<close>

definition VRPNodeEmbedding_call ::
  "('k, 'w) library \<Rightarrow> 'w VRPEncoder_params \<Rightarrow> VRP \<Rightarrow> real list list list" where
  "VRPNodeEmbedding_call lib p nodes =
     (let (coords, demands) = nodes
      in map (\<lambda>(c, d).
                map (nn_Dense lib (encode_depot p)) (take 1 c) @
                map (nn_Dense lib (encode_customers p))
                  (map (\<lambda>(xy, q). xy @ [q]) (zip (drop 1 c) (drop 1 d))))
             (zip coords demands))"

text \<open>
  \<^verbatim>\<open>TransformerEncoderBlock.__call__(x, mask, deterministic)\<close>, with the block's
  \<^verbatim>\<open>dropout_rate\<close>: the flag goes to the attention and to the dropout.
\<close>

definition TransformerEncoderBlock_call ::
  "('k, 'w) library \<Rightarrow> real \<Rightarrow> 'w TransformerEncoderBlock_params \<Rightarrow> 'k \<Rightarrow> real list list list
     \<Rightarrow> bool list list list list option \<Rightarrow> bool \<Rightarrow> real list list list" where
  "TransformerEncoderBlock_call lib dropout_rate p key x msk deterministic =
     (let mha_out = nn_MultiHeadDotProductAttention lib (block_mha p) dropout_rate
                      (Some deterministic) (flax_make_rng lib key 0) x x msk;
          mha_out = map (map (nn_LayerNorm lib (block_norm1 p))) (tensor_add x mha_out);
          mlp_out = map (map (nn_Dense lib (block_mlp1 p))) mha_out;
          mlp_out = map (map (map relu)) mlp_out;
          mlp_out = nn_Dropout lib dropout_rate deterministic (flax_make_rng lib key 1) mlp_out;
          mlp_out = map (map (nn_Dense lib (block_mlp2 p))) mlp_out;
          out = map (map (nn_LayerNorm lib (block_norm2 p))) (tensor_add mha_out mlp_out)
      in out)"

text \<open>
  \<^verbatim>\<open>VRPEncoder.__call__(nodes, mask, deterministic)\<close>: the embedding, then the \<^verbatim>\<open>num_layers\<close>
  blocks in turn. \<^verbatim>\<open>VRPEncoder.setup\<close> builds the blocks without a \<^verbatim>\<open>dropout_rate\<close>, so each has
  the default \<open>0.1\<close>.
\<close>

definition VRPEncoder_call ::
  "('k, 'w) library \<Rightarrow> AttentionModel \<Rightarrow> 'w VRPEncoder_params \<Rightarrow> 'k \<Rightarrow> VRP
     \<Rightarrow> bool list list list list option \<Rightarrow> bool \<Rightarrow> real list list list" where
  "VRPEncoder_call lib model p key nodes msk deterministic =
     fold (\<lambda>i x. TransformerEncoderBlock_call lib (1 / 10) (encoder_blocks p ! i)
                    (flax_make_rng lib key i) x msk deterministic)
          [0..<num_layers model]
          (VRPNodeEmbedding_call lib p nodes)"

text \<open>
  \<^verbatim>\<open>PointerDecoder.__call__(node_embeddings, states, mask, deterministic)\<close> up to
  \<^verbatim>\<open>logits = self.clip * nn.tanh(logits)\<close>: the score of node \<open>j\<close> for batch element \<open>b\<close>. The
  attention of the decoder is built without a \<^verbatim>\<open>dropout_rate\<close> (default 0) and called without
  the flag, which the method does not use.
\<close>

definition PointerDecoder_scores ::
  "('k, 'w) library \<Rightarrow> AttentionModel \<Rightarrow> 'w PointerDecoder_params \<Rightarrow> 'k \<Rightarrow> real list list list
     \<Rightarrow> VRPDecoderState \<Rightarrow> NodeMask \<Rightarrow> bool \<Rightarrow> nat \<Rightarrow> nat \<Rightarrow> real" where
  "PointerDecoder_scores lib model p key node_embeddings states node_mask deterministic b j =
     (let (state_nodes, capacities) = states;
          bs = length node_embeddings;
          state_node_embedding =
            map (\<lambda>b. nn_Dense lib (encode_state p) (gather (node_embeddings ! b) (state_nodes ! b)))
              [0..<bs];
          graph_embedding = map (\<lambda>e. nn_Dense lib (encode_graph p) (sum_nodes e)) node_embeddings;
          capacity_embedding = map (\<lambda>c. nn_Dense lib (encode_capacity p) [c]) capacities;
          Q1 = map (\<lambda>v. [v])
                 (map (\<lambda>(u, v). map (\<lambda>(a, b). a + b) (zip u v))
                    (zip (map (\<lambda>(u, v). map (\<lambda>(a, b). a + b) (zip u v))
                            (zip state_node_embedding graph_embedding))
                         capacity_embedding));
          Q2 = nn_MultiHeadDotProductAttention lib (decoder_mha p) 0 None (flax_make_rng lib key 0)
                 Q1 node_embeddings (Some (map (\<lambda>m. [[m]]) node_mask));
          Q2 = map (map (nn_Dense lib (Wq p))) Q2;
          K2 = map (map (nn_Dense lib (Wk p))) node_embeddings;
          logits = dot (Q2 ! b ! 0) (K2 ! b ! j) / sqrt (real (embed_dim model))
      in clip model * tanh logits)"

text \<open>
  The encoder and the decoder of \<^verbatim>\<open>AttentionModel.solve\<close>: \<^verbatim>\<open>encode\<close> applies the encoder to
  the problems with no mask, and \<^verbatim>\<open>decode\<close> applies the decoder; both pass the key as the
  \<^verbatim>\<open>"dropout"\<close> key and the \<^verbatim>\<open>deterministic\<close> flag.
\<close>

definition attention_model ::
  "('k, 'w) library \<Rightarrow> AttentionModel
     \<Rightarrow> ('k, real list list list, 'w VRPEncoder_params, 'w PointerDecoder_params) externals" where
  "attention_model lib model =
     \<lparr> random_split = jax_random_split lib,
       random_split_n = jax_random_split_n lib,
       random_choice = jax_random_choice lib,
       encoder_apply = (\<lambda>encoder_params key problems deterministic.
          VRPEncoder_call lib model encoder_params key problems None deterministic),
       decoder_scores = PointerDecoder_scores lib model \<rparr>"

text \<open>
  The contract of the flax layers: \<^verbatim>\<open>nn.Dropout\<close> with \<^verbatim>\<open>deterministic=True\<close> returns its input;
  the attention layer draws a dropout key only when its \<^verbatim>\<open>dropout_rate\<close> is positive and it
  is not deterministic.
\<close>

definition flax_contract :: "('k, 'w) library \<Rightarrow> bool" where
  "flax_contract lib =
     ((\<forall>rate key x. nn_Dropout lib rate True key x = x) \<and>
      (\<forall>w rate key key' q kv m.
          nn_MultiHeadDotProductAttention lib w rate (Some True) key q kv m =
          nn_MultiHeadDotProductAttention lib w rate (Some True) key' q kv m) \<and>
      (\<forall>w flag key key' q kv m.
          nn_MultiHeadDotProductAttention lib w 0 flag key q kv m =
          nn_MultiHeadDotProductAttention lib w 0 flag key' q kv m))"

text \<open>
  A library for the examples with natural numbers as keys and no weights: dense layers
  and normalisation are the identity, and dropout and attention read their key exactly
  when the contract lets them.
\<close>

definition demo_lib :: "(nat, unit) library" where
  "demo_lib = \<lparr> jax_random_split = (\<lambda>k. (2 * k, 2 * k + 1)),
      jax_random_split_n = (\<lambda>k n. map (\<lambda>i. k + i) [0..<n]),
      jax_random_choice = (\<lambda>k a xs. k mod a),
      flax_make_rng = (\<lambda>k i. k + i),
      nn_Dense = (\<lambda>w x. x),
      nn_LayerNorm = (\<lambda>w x. x),
      nn_Dropout = (\<lambda>rate d k x. if d then x else map (map (map (\<lambda>a. a * real k))) x),
      nn_MultiHeadDotProductAttention = (\<lambda>w rate d k q kv m.
         if rate = 0 \<or> d = Some True then q else map (map (map (\<lambda>a. a + real k))) q) \<rparr>"

definition demo_model :: AttentionModel where
  "demo_model = \<lparr> embed_dim = 2, num_heads = 1, num_layers = 1, ff_dim = 2, clip = 10 \<rparr>"

definition demo_params :: "unit VRPEncoder_params \<times> unit PointerDecoder_params" where
  "demo_params =
     (\<lparr> encode_depot = (), encode_customers = (),
        encoder_blocks = [\<lparr> block_mha = (), block_mlp1 = (), block_mlp2 = (),
                            block_norm1 = (), block_norm2 = () \<rparr>] \<rparr>,
      \<lparr> encode_state = (), encode_graph = (), encode_capacity = (), Wk = (), Wq = (),
        decoder_mha = () \<rparr>)"

section \<open>Verification\<close>

subsection \<open>Action selection\<close>

lemma argmax_from_no_beat: "(\<forall>x\<in>set xs. \<not> beats x bv) \<Longrightarrow> argmax_from bi bv i xs = bi"
  by (induction xs arbitrary: i) auto

lemma argmax_from_result:
  "NaN \<notin> set (bv # xs) \<Longrightarrow>
   (argmax_from bi bv i xs = bi \<and> (\<forall>x\<in>set xs. x \<noteq> NegInf \<longrightarrow> bv \<noteq> NegInf)) \<or>
   (\<exists>k<length xs. argmax_from bi bv i xs = i + k \<and> xs ! k \<noteq> NegInf)"
proof (induction xs arbitrary: bi bv i)
  case Nil
  then show ?case by simp
next
  case (Cons x xs)
  show ?case
  proof (cases "beats x bv")
    case True
    then have xf: "x \<noteq> NegInf" using Cons.prems
      by (cases x; cases bv) (auto simp: beats_def)
    from Cons.prems have "NaN \<notin> set (x # xs)" by simp
    from Cons.IH[OF this, of i "Suc i"] show ?thesis
    proof
      assume "argmax_from i x (Suc i) xs = i \<and> (\<forall>y\<in>set xs. y \<noteq> NegInf \<longrightarrow> x \<noteq> NegInf)"
      then have "argmax_from bi bv i (x # xs) = i + 0 \<and> (x # xs) ! 0 \<noteq> NegInf"
        using True xf by simp
      then show ?thesis by blast
    next
      assume "\<exists>k<length xs. argmax_from i x (Suc i) xs = Suc i + k \<and> xs ! k \<noteq> NegInf"
      then obtain k where "k < length xs" "argmax_from i x (Suc i) xs = Suc i + k" "xs ! k \<noteq> NegInf"
        by blast
      then have "Suc k < length (x # xs) \<and> argmax_from bi bv i (x # xs) = i + Suc k \<and> (x # xs) ! Suc k \<noteq> NegInf"
        using True by simp
      then show ?thesis by blast
    qed
  next
    case False
    then have xb: "x \<noteq> NegInf \<longrightarrow> bv \<noteq> NegInf" using Cons.prems
      by (cases x; cases bv) (auto simp: beats_def)
    from Cons.prems have "NaN \<notin> set (bv # xs)" by simp
    from Cons.IH[OF this, of bi "Suc i"] show ?thesis
    proof
      assume "argmax_from bi bv (Suc i) xs = bi \<and> (\<forall>y\<in>set xs. y \<noteq> NegInf \<longrightarrow> bv \<noteq> NegInf)"
      then show ?thesis using False xb by auto
    next
      assume "\<exists>k<length xs. argmax_from bi bv (Suc i) xs = Suc i + k \<and> xs ! k \<noteq> NegInf"
      then obtain k where "k < length xs" "argmax_from bi bv (Suc i) xs = Suc i + k" "xs ! k \<noteq> NegInf"
        by blast
      then have "Suc k < length (x # xs) \<and> argmax_from bi bv i (x # xs) = i + Suc k \<and> (x # xs) ! Suc k \<noteq> NegInf"
        using False by simp
      then show ?thesis by blast
    qed
  qed
qed

lemma argmax_finite:
  assumes "NaN \<notin> set xs" and "\<exists>j<length xs. xs ! j \<noteq> NegInf"
  shows "argmax xs < length xs \<and> xs ! argmax xs \<noteq> NegInf"
proof (cases xs)
  case Nil
  then show ?thesis using assms by simp
next
  case (Cons x ys)
  from assms(1) Cons have "NaN \<notin> set (x # ys)" by simp
  from argmax_from_result[OF this, of 0 1] show ?thesis
  proof
    assume a: "argmax_from 0 x 1 ys = 0 \<and> (\<forall>y\<in>set ys. y \<noteq> NegInf \<longrightarrow> x \<noteq> NegInf)"
    from assms(2) Cons obtain j where j: "j < length (x # ys)" "(x # ys) ! j \<noteq> NegInf" by blast
    have "x \<noteq> NegInf"
    proof (cases j)
      case 0
      then show ?thesis using j by simp
    next
      case (Suc k)
      then have "ys ! k \<in> set ys" "ys ! k \<noteq> NegInf" using j by auto
      then show ?thesis using a by blast
    qed
    then show ?thesis using a Cons by (simp add: argmax_def)
  next
    assume "\<exists>k<length ys. argmax_from 0 x 1 ys = 1 + k \<and> ys ! k \<noteq> NegInf"
    then show ?thesis using Cons by (auto simp: argmax_def)
  qed
qed

lemma argmax_all_neginf:
  assumes "\<forall>x\<in>set xs. x = NegInf"
  shows "argmax xs = 0"
proof (cases xs)
  case Nil
  then show ?thesis by (simp add: argmax_def)
next
  case (Cons x ys)
  then have "\<forall>y\<in>set ys. \<not> beats y x" using assms by (auto simp: beats_def)
  then show ?thesis using Cons by (simp add: argmax_def argmax_from_no_beat)
qed

subsection \<open>The mask and the rows of the loop state\<close>

lemma mask_row_length: "length (next_node_mask_row N cm d v c cur) = N"
  by (simp add: next_node_mask_row_def Let_def)

lemma mask_row_nth:
  assumes "n < N"
  shows "next_node_mask_row N ((replicate N True)[0 := False]) d v c cur ! n =
     (if n = 0 then (\<exists>j<N. j \<noteq> 0 \<and> \<not> v ! j) \<and> (cur = 0 \<or> d ! 0 > c)
      else (n = cur \<or> v ! n \<or> d ! n > c))"
proof -
  let ?cm = "(replicate N True)[0 := False]"
  let ?m1 = "map (\<lambda>j. (v ! j \<and> ?cm ! j) \<or> d ! j > c) [0..<N]"
  let ?m2 = "?m1[cur := True]"
  have cm: "?cm ! j = (j \<noteq> 0)" if "j < N" for j
    using that by (simp add: nth_list_update)
  have m1: "?m1 ! j = ((v ! j \<and> j \<noteq> 0) \<or> d ! j > c)" if "j < N" for j
    using that cm[OF that] by simp
  have m2: "?m2 ! j = (j = cur \<or> (v ! j \<and> j \<noteq> 0) \<or> d ! j > c)" if "j < N" for j
  proof (cases "j = cur")
    case True
    then have "?m2 ! j = True" using that by simp
    then show ?thesis using True by simp
  next
    case False
    then have "?m2 ! j = ?m1 ! j" by simp
    then show ?thesis using False m1[OF that] by simp
  qed
  have all: "list_all (\<lambda>j. v ! j \<or> \<not> ?cm ! j) [0..<N] = (\<not> (\<exists>j<N. j \<noteq> 0 \<and> \<not> v ! j))"
    using cm by (auto simp: list_all_iff)
  have def: "next_node_mask_row N ?cm d v c cur =
      ?m2[0 := (\<not> list_all (\<lambda>j. v ! j \<or> \<not> ?cm ! j) [0..<N]) \<and> ?m2 ! 0]"
    by (simp add: next_node_mask_row_def Let_def)
  show ?thesis
  proof (cases "n = 0")
    case True
    then have "0 < N" using assms by simp
    then have "next_node_mask_row N ?cm d v c cur ! 0 =
        ((\<not> list_all (\<lambda>j. v ! j \<or> \<not> ?cm ! j) [0..<N]) \<and> ?m2 ! 0)"
      unfolding def by simp
    also have "\<dots> = ((\<exists>j<N. j \<noteq> 0 \<and> \<not> v ! j) \<and> (cur = 0 \<or> d ! 0 > c))"
      unfolding all using m2[OF \<open>0 < N\<close>] by auto
    finally show ?thesis using True by simp
  next
    case False
    then have "next_node_mask_row N ?cm d v c cur ! n = ?m2 ! n"
      unfolding def by simp
    then show ?thesis using False m2[OF assms] by auto
  qed
qed

lemma customer_mask_nth: "b < bs \<Longrightarrow> customer_mask bs N ! b = (replicate N True)[0 := False]"
  by (simp add: customer_mask_def)

lemma step_mask_length: "length (step_mask P idx st) = batch_size P"
  by (simp add: step_mask_def Let_def)

lemma step_mask_nth:
  "b < batch_size P \<Longrightarrow> step_mask P idx st ! b =
     next_node_mask_row (seq_length P) ((replicate (seq_length P) True)[0 := False]) (snd P ! b)
       (visited st ! b) (capacities st ! b) (sequences st ! b ! (idx - 1))"
  by (simp add: step_mask_def Let_def customer_mask_nth)

lemma step_logits_length: "length (step_logits ext pd enc P det idx st) = batch_size P"
  by (simp add: step_logits_def PointerDecoder_call_def Let_def step_mask_length)

lemma step_logits_row:
  assumes "b < batch_size P"
  shows "\<exists>sc. step_logits ext pd enc P det idx st ! b =
     map (\<lambda>j. if step_mask P idx st ! b ! j then NegInf else Fin (sc j)) [0..<seq_length P]"
  using assms
  by (auto simp add: step_logits_def PointerDecoder_call_def Let_def step_mask_length step_mask_nth mask_row_length)

lemma masked_nth:
  "j < length m \<Longrightarrow> map (\<lambda>j. if m ! j then NegInf else Fin (sc j)) [0..<length m] ! j \<noteq> NegInf
     \<Longrightarrow> \<not> m ! j"
  by (cases "m ! j") simp_all

lemma picks_argmax:
  "picks True m (argmax (map (\<lambda>j. if m ! j then NegInf else Fin (sc j)) [0..<length m]))"
proof (cases "list_ex (\<lambda>x. \<not> x) m")
  case True
  let ?xs = "map (\<lambda>j. if m ! j then NegInf else Fin (sc j)) [0..<length m]"
  from True obtain j where "j < length m" "\<not> m ! j" by (auto simp: list_ex_iff in_set_conv_nth)
  then have ex: "\<exists>j<length ?xs. ?xs ! j \<noteq> NegInf" by auto
  have nonan: "NaN \<notin> set ?xs" by auto
  from argmax_finite[OF nonan ex] have a: "argmax ?xs < length m" by simp
  from argmax_finite[OF nonan ex] have b: "?xs ! argmax ?xs \<noteq> NegInf" by (rule conjunct2)
  from a masked_nth[OF a b] have "argmax ?xs < length m \<and> \<not> m ! argmax ?xs" by (rule conjI)
  then show ?thesis using True by (simp add: picks_def)
next
  case False
  let ?xs = "map (\<lambda>j. if m ! j then NegInf else Fin (sc j)) [0..<length m]"
  have "\<forall>j<length m. m ! j"
  proof (intro allI impI)
    fix j assume "j < length m"
    then have "m ! j \<in> set m" by simp
    then show "m ! j" using False by (auto simp: list_ex_iff)
  qed
  then have "\<forall>x\<in>set ?xs. x = NegInf" by auto
  then have "argmax ?xs = 0" by (rule argmax_all_neginf)
  then show ?thesis using False by (simp add: picks_def)
qed

lemma picks_sample:
  assumes "sampler_sound ext"
  shows "picks False m (random_choice ext k a (map (\<lambda>j. if m ! j then NegInf else Fin (sc j)) [0..<length m]))"
proof (cases "list_ex (\<lambda>x. \<not> x) m")
  case True
  let ?xs = "map (\<lambda>j. if m ! j then NegInf else Fin (sc j)) [0..<length m]"
  from True obtain j where j: "j < length m" "\<not> m ! j" by (auto simp: list_ex_iff in_set_conv_nth)
  then have "?xs ! j \<in> set ?xs" "?xs ! j \<noteq> NegInf" by auto
  then have ex: "list_ex (\<lambda>x. x \<noteq> NegInf) ?xs" unfolding list_ex_iff by blast
  have nonan: "\<not> list_ex (\<lambda>x. x = NaN) ?xs" by (auto simp: list_ex_iff)
  from assms nonan ex have "random_choice ext k a ?xs < length ?xs \<and> ?xs ! random_choice ext k a ?xs \<noteq> NegInf"
    unfolding sampler_sound_def by blast
  then have a: "random_choice ext k a ?xs < length m"
    and b: "?xs ! random_choice ext k a ?xs \<noteq> NegInf"
    by (simp, rule conjunct2)
  from a masked_nth[OF a b] have "random_choice ext k a ?xs < length m \<and> \<not> m ! random_choice ext k a ?xs"
    by (rule conjI)
  then show ?thesis using True by (simp add: picks_def)
next
  case False
  then show ?thesis by (simp add: picks_def)
qed

lemma step_node_picks:
  assumes "b < batch_size P" and "det \<or> sampler_sound ext"
  shows "picks det (step_mask P idx st ! b) (step_node ext pd enc P det idx st b)"
proof -
  let ?m = "step_mask P idx st ! b"
  have lm: "length ?m = seq_length P" using assms(1) by (simp add: step_mask_nth mask_row_length)
  from step_logits_row[OF assms(1)] obtain sc where
    lg: "step_logits ext pd enc P det idx st ! b = map (\<lambda>j. if ?m ! j then NegInf else Fin (sc j)) [0..<length ?m]"
    using lm by metis
  show ?thesis
  proof (cases det)
    case True
    then have "step_node ext pd enc P det idx st b = argmax (step_logits ext pd enc P det idx st ! b)"
      using assms(1) by (simp add: step_node_def step_next_def Let_def step_logits_length)
    then show ?thesis using True lg picks_argmax[of ?m sc] by simp
  next
    case False
    then have ss: "sampler_sound ext" using assms(2) by simp
    from False obtain k where "step_node ext pd enc P det idx st b = random_choice ext k (seq_length P) (step_logits ext pd enc P det idx st ! b)"
      using assms(1) by (simp add: step_node_def step_next_def Let_def split_def)
    then show ?thesis using False lg picks_sample[OF ss, of ?m k "seq_length P" sc] by simp
  qed
qed

lemma decode_iteration_row:
  assumes "b < batch_size P"
  shows "row_of (decode_iteration ext pd enc P det idx st) b =
    (let n = step_node ext pd enc P det idx st b in
      ((sequences st ! b)[idx := n], (visited st ! b)[n := True],
       if n = 0 then 1 else capacities st ! b - gather (snd P ! b) n))"
  using assms
  by (simp add: row_of_def decode_iteration_def step_node_def Let_def split_def)

lemma decode_state_Suc:
  "decode_state ext params r P det (Suc t) =
     decode_iteration ext (snd params) (encoder_apply ext (fst params) (snd (random_split ext r)) P det) P det (Suc t)
       (decode_state ext params r P det t)"
  by (simp add: decode_state_def fori_loop_def split_def Let_def)

lemma decode_state_reach:
  assumes "b < batch_size P" and "det \<or> sampler_sound ext" and "t < 2 * seq_length P \<or> t = 0"
  shows "row_reach det (snd P ! b) (seq_length P) t (row_of (decode_state ext params r P det t) b)"
  using assms(3)
proof (induction t)
  case 0
  have "row_of (decode_state ext params r P det 0) b =
     (replicate (2 * seq_length P) 0, (replicate (seq_length P) False)[0 := True], 1)"
    using assms(1) by (simp add: decode_state_def fori_loop_def row_of_def split_def decode_init_def Let_def)
  then show ?case by (simp add: row_reach.reach_init)
next
  case (Suc t)
  then have lt: "Suc t < 2 * seq_length P" by simp
  let ?st = "decode_state ext params r P det t"
  let ?enc = "encoder_apply ext (fst params) (snd (random_split ext r)) P det"
  let ?n = "step_node ext (snd params) ?enc P det (Suc t) ?st b"
  from Suc lt have ih: "row_reach det (snd P ! b) (seq_length P) t (sequences ?st ! b, visited ?st ! b, capacities ?st ! b)"
    by (simp add: row_of_def)
  have pk: "picks det (next_node_mask_row (seq_length P) ((replicate (seq_length P) True)[0 := False]) (snd P ! b)
       (visited ?st ! b) (capacities ?st ! b) (sequences ?st ! b ! t)) ?n"
    using step_node_picks[OF assms(1) assms(2), of "Suc t" ?st "snd params" ?enc] assms(1)
    by (simp add: step_mask_nth)
  from row_reach.reach_step[OF ih lt pk] show ?case
    using assms(1) by (simp add: decode_state_Suc decode_iteration_row Let_def)
qed

subsection \<open>Evaluating the examples\<close>

lemmas demo_eval = decode_state_def fori_loop_def decode_iteration_def step_logits_def
  step_next_def step_mask_def PointerDecoder_call_def next_node_mask_row_def decode_init_def
  batch_size_def seq_length_def customer_mask_def demo_ext_def demo_problem_def Let_def
  gather_def argmax_def beats_def upt_rec[of 0] upt_rec[of 1] upt_rec[of "Suc 0"] upt_rec[of 2]
  upt_rec[of "Suc (Suc 0)"] upt_rec[of 3] numeral_2_eq_2 numeral_3_eq_3

subsection \<open>C1: the depot entry of the mask\<close>

text \<open>
  Claim C1, as the code has it. In every iteration, for every batch element, the mask entry
  of the depot (node 0) is true (forbidden) exactly when some customer is still unvisited
  and, in addition, the vehicle stands at the depot or the depot's demand exceeds the
  remaining capacity. Hence the depot is allowed whenever every customer has been visited.
\<close>

theorem depot_mask:
  assumes "b < batch_size problems" and "0 < seq_length problems"
  shows "step_mask problems idx st ! b ! 0 =
     ((\<exists>j<seq_length problems. j \<noteq> 0 \<and> \<not> visited st ! b ! j) \<and>
      (sequences st ! b ! (idx - 1) = 0 \<or> capacities st ! b < snd problems ! b ! 0))"
  using assms by (simp add: step_mask_nth mask_row_nth)

text \<open>At the first iteration of the example the vehicle stands at the depot and the customer
  is unvisited: the depot is forbidden.\<close>

theorem depot_mask_witness:
  "0 < batch_size demo_problem \<and> 0 < seq_length demo_problem \<and>
   step_mask demo_problem 1 (decode_init () demo_problem) ! 0 ! 0"
proof -
  have b: "0 < batch_size demo_problem" and n: "0 < seq_length demo_problem"
    by (simp_all add: batch_size_def seq_length_def demo_problem_def)
  have "(\<exists>j<seq_length demo_problem. j \<noteq> 0 \<and> \<not> visited (decode_init () demo_problem) ! 0 ! j)"
    by (rule exI[of _ 1]) (simp add: demo_eval)
  moreover have "sequences (decode_init () demo_problem) ! 0 ! (1 - 1) = 0"
    by (simp add: demo_eval)
  ultimately show ?thesis using depot_mask[OF b n, of 1 "decode_init () demo_problem"] b n
    by blast
qed

text \<open>
  The claim as it was stated (the depot is forbidden once every customer has been visited)
  fails: after two iterations of the example the customer has been visited, and the mask
  of the third iteration allows the depot.
\<close>

theorem depot_mask_counterexample:
  "visited (decode_state demo_ext ((), ()) () demo_problem True 2) ! 0 = [True, True] \<and>
   \<not> step_mask demo_problem 3 (decode_state demo_ext ((), ()) () demo_problem True 2) ! 0 ! 0"
  by (simp add: demo_eval)

subsection \<open>C8: the cost of a route\<close>

lemma gather_nth: "i < length xs \<Longrightarrow> gather xs i = xs ! i"
proof -
  assume "i < length xs"
  then have "min i (length xs - 1) = i" by arith
  then show ?thesis by (simp add: gather_def)
qed

lemma sum_list_pairs:
  "sum_list (map f (zip (butlast r) (tl r))) = (\<Sum>i<length r - 1. f (r ! i, r ! Suc i))"
proof -
  let ?z = "zip (butlast r) (tl r)"
  have len: "length ?z = length r - 1" by simp
  have "sum_list (map f ?z) = (\<Sum>i = 0..<length ?z. map f ?z ! i)"
    by (simp add: sum_list_sum_nth)
  also have "\<dots> = (\<Sum>i = 0..<length r - 1. f (r ! i, r ! Suc i))"
  proof (rule sum.cong)
    show "{0..<length ?z} = {0..<length r - 1}" by simp
  next
    fix i assume "i \<in> {0..<length r - 1}"
    then have i: "i < length r - 1" by simp
    then have "?z ! i = (r ! i, r ! Suc i)"
      by (simp add: nth_butlast nth_tl)
    then show "map f ?z ! i = f (r ! i, r ! Suc i)" using i by simp
  qed
  finally show ?thesis by (simp add: atLeast0LessThan)
qed

lemma distance_matrix_nth:
  assumes "i < length coords" and "j < length coords"
  shows "map (\<lambda>i. map (\<lambda>j. sqrt (sum_list (map (\<lambda>(a, b). (a - b)\<^sup>2)
              (zip (map (\<lambda>c. replicate (length coords) c) coords ! i ! j)
                   (replicate (length coords) coords ! i ! j)))))
            [0..<length coords]) [0..<length coords] ! i ! j
         = euclidean (coords ! i) (coords ! j)"
  using assms by (simp add: euclidean_def)

text \<open>
  Claim C8. For coordinates and a route over their nodes, \<open>get_cost\<close> returns the sum over
  the consecutive positions of the route of the Euclidean distance between the two nodes;
  a step from a node to itself (a depot-to-depot repeat) has distance 0; and for the depot
  at \<open>(0, 0)\<close>, \<open>A\<close> at \<open>(1, 0)\<close> and \<open>B\<close> at \<open>(0, 1)\<close> the route depot, \<open>A\<close>, \<open>B\<close>, depot padded
  with depot entries costs \<open>1 + sqrt 2 + 1\<close>.
\<close>

theorem get_cost_route_length:
  assumes "list_all (\<lambda>n. n < length coords) route"
  shows "get_cost coords route = route_length coords route \<and>
         euclidean p p = 0 \<and>
         get_cost [[0, 0], [1, 0], [0, 1]] [0, 1, 2, 0, 0, 0] = 1 + sqrt 2 + 1"
proof (intro conjI)
  let ?D = "map (\<lambda>i. map (\<lambda>j. sqrt (sum_list (map (\<lambda>(a, b). (a - b)\<^sup>2)
              (zip (map (\<lambda>c. replicate (length coords) c) coords ! i ! j)
                   (replicate (length coords) coords ! i ! j)))))
            [0..<length coords]) [0..<length coords]"
  have inr: "route ! i < length coords" if "i < length route" for i
    using assms that by (simp add: list_all_length)
  have "get_cost coords route =
      sum_list (map (\<lambda>(s, d). gather (gather ?D s) d) (zip (butlast route) (tl route)))"
    by (simp add: get_cost_def Let_def)
  also have "\<dots> = (\<Sum>i<length route - 1. gather (gather ?D (route ! i)) (route ! Suc i))"
    using sum_list_pairs[of "\<lambda>(s, d). gather (gather ?D s) d" route] by simp
  also have "\<dots> = (\<Sum>i<length route - 1. euclidean (coords ! (route ! i)) (coords ! (route ! Suc i)))"
  proof (rule sum.cong)
    fix i assume "i \<in> {..<length route - 1}"
    then have a: "route ! i < length coords" and b: "route ! Suc i < length coords"
      using inr[of i] inr[of "Suc i"] by simp_all
    have "gather ?D (route ! i) = ?D ! (route ! i)"
      using a by (simp add: gather_nth)
    moreover have "gather (?D ! (route ! i)) (route ! Suc i) = ?D ! (route ! i) ! (route ! Suc i)"
      using a b by (simp add: gather_nth)
    ultimately show "gather (gather ?D (route ! i)) (route ! Suc i)
        = euclidean (coords ! (route ! i)) (coords ! (route ! Suc i))"
      using distance_matrix_nth[OF a b] by simp
  qed simp
  finally show "get_cost coords route = route_length coords route"
    by (simp add: route_length_def)
next
  have "map (\<lambda>(a, b). (a - b)\<^sup>2) (zip p p) = map (\<lambda>a. 0) p"
    by (induction p) simp_all
  then show "euclidean p p = 0" by (simp add: euclidean_def)
next
  show "get_cost [[0, 0], [1, 0], [0, 1]] [0, 1, 2, 0, 0, 0] = 1 + sqrt 2 + 1"
    by (simp add: get_cost_def Let_def gather_def upt_rec[of 0] upt_rec[of 1] upt_rec[of 2]
        numeral_3_eq_3 numeral_2_eq_2 upt_rec[of "Suc 0"] upt_rec[of "Suc (Suc 0)"])
qed

text \<open>A route from the depot to a customer at \<open>(3, 4)\<close> and back has length 10.\<close>

theorem get_cost_route_length_witness:
  "list_all (\<lambda>n. n < length [[0, 0], [3, 4 :: real]]) [0, 1, 0] \<and>
   get_cost [[0, 0], [3, 4]] [0, 1, 0] = route_length [[0, 0], [3, 4]] [0, 1, 0] \<and>
   route_length [[0, 0], [3, 4]] [0, 1, 0] = 10"
proof -
  have h: "list_all (\<lambda>n. n < length [[0, 0], [3, 4 :: real]]) [0, 1, 0]" by simp
  have "sqrt (25 :: real) = 5" using real_sqrt_abs[of 5] by simp 
  then have "route_length [[0, 0], [3, 4]] [0, 1, 0] = 10"
    by (simp add: route_length_def euclidean_def lessThan_Suc numeral_2_eq_2)
  then show ?thesis using get_cost_route_length[OF h] h by simp
qed

subsection \<open>Capacity invariants of a batch element\<close>

lemma row_fits_nth:
  assumes "row_fits d" and "length d = N"
  shows "0 < N \<Longrightarrow> d ! 0 = 0" and "0 < j \<Longrightarrow> j < N \<Longrightarrow> d ! j \<le> 1"
proof -
  show "0 < N \<Longrightarrow> d ! 0 = 0" using assms by (cases d) (simp_all add: row_fits_def)
  show "0 < j \<Longrightarrow> j < N \<Longrightarrow> d ! j \<le> 1"
  proof -
    assume j: "0 < j" "j < N"
    then obtain x xs where d: "d = x # xs" using assms(2) by (cases d) auto
    from j obtain k where k: "j = Suc k" by (cases j) auto
    then have "k < length xs" using j assms(2) d by simp
    moreover have "list_all (\<lambda>y. y \<le> 1) xs" using assms(1) d by (simp add: row_fits_def)
    ultimately have "xs ! k \<le> 1" by (simp add: list_all_length)
    then show ?thesis using d k by simp
  qed
qed

lemma list_ex_not_nth: "n < length m \<Longrightarrow> \<not> m ! n \<Longrightarrow> list_ex (\<lambda>x. \<not> x) m"
  unfolding list_ex_iff using nth_mem by blast

lemma allowed_exists:
  assumes "row_fits d" and "length d = N" and "0 < N" and "0 \<le> c" and "cur = 0 \<longrightarrow> c = 1"
  shows "\<exists>n<N. \<not> next_node_mask_row N ((replicate N True)[0 := False]) d v c cur ! n"
proof (cases "\<exists>j<N. j \<noteq> 0 \<and> \<not> v ! j")
  case False
  then have "\<not> next_node_mask_row N ((replicate N True)[0 := False]) d v c cur ! 0"
    using assms(3) by (simp add: mask_row_nth)
  then show ?thesis using assms(3) by blast
next
  case True
  then obtain j where j: "j < N" "j \<noteq> 0" "\<not> v ! j" by blast
  show ?thesis
  proof (cases "cur = 0")
    case True
    then have "c = 1" using assms(5) by simp
    moreover have "d ! j \<le> 1" using row_fits_nth(2)[OF assms(1,2)] j by simp
    ultimately have "\<not> next_node_mask_row N ((replicate N True)[0 := False]) d v c cur ! j"
      using j True by (simp add: mask_row_nth)
    then show ?thesis using j by blast
  next
    case False
    have "d ! 0 = 0" using row_fits_nth(1)[OF assms(1,2)] assms(3) by simp
    then have "\<not> next_node_mask_row N ((replicate N True)[0 := False]) d v c cur ! 0"
      using assms(3,4) False by (simp add: mask_row_nth)
    then show ?thesis using assms(3) by blast
  qed
qed

lemma legal_pick:
  assumes "row_fits d" and "length d = N" and "0 < N" and "0 \<le> c" and "cur = 0 \<longrightarrow> c = 1"
    and "picks det (next_node_mask_row N ((replicate N True)[0 := False]) d v c cur) n"
  shows "n < N" and "n \<noteq> 0 \<Longrightarrow> n \<noteq> cur \<and> \<not> v ! n \<and> d ! n \<le> c"
    and "n = 0 \<Longrightarrow> (\<forall>j<N. j \<noteq> 0 \<longrightarrow> v ! j) \<or> cur \<noteq> 0"
proof -
  let ?m = "next_node_mask_row N ((replicate N True)[0 := False]) d v c cur"
  from allowed_exists[OF assms(1-5)] obtain k where "k < N" "\<not> ?m ! k" by blast
  then have "list_ex (\<lambda>x. \<not> x) ?m" using list_ex_not_nth[of k ?m] by (simp add: mask_row_length)
  then have n: "n < N" and nm: "\<not> ?m ! n"
    using assms(6) by (simp_all add: picks_def mask_row_length)
  show "n < N" by (rule n)
  show "n \<noteq> 0 \<Longrightarrow> n \<noteq> cur \<and> \<not> v ! n \<and> d ! n \<le> c"
    using nm n by (simp add: mask_row_nth)
  show "n = 0 \<Longrightarrow> (\<forall>j<N. j \<noteq> 0 \<longrightarrow> v ! j) \<or> cur \<noteq> 0"
    using nm n by (auto simp add: mask_row_nth)
qed

lemma row_reach_shape:
  "row_reach det d N t r \<Longrightarrow>
     length (fst r) = 2 * N \<and> length (fst (snd r)) = N \<and> (t = 0 \<or> t < 2 * N)"
  by (induction rule: row_reach.induct) simp_all

lemma row_reach_capacity:
  assumes "row_fits d" and "length d = N"
  shows "row_reach det d N t r \<Longrightarrow>
     (case r of (s, v, c) \<Rightarrow> 0 \<le> c \<and> (0 < N \<longrightarrow> s ! t < N \<and> (s ! t = 0 \<longrightarrow> c = 1)))"
proof (induction rule: row_reach.induct)
  case reach_init
  then show ?case by simp
next
  case (reach_step t s v c n)
  then have N: "0 < N" by simp
  from reach_step.IH N have c: "0 \<le> c" and cur: "s ! t = 0 \<longrightarrow> c = 1" by simp_all
  from row_reach_shape[OF reach_step.hyps(1)] have len: "length s = 2 * N" by simp
  note lp = legal_pick[OF assms N c cur reach_step.hyps(3)]
  have st: "s[Suc t := n] ! Suc t = n" using len reach_step.hyps(2) by simp
  have "0 \<le> (if n = 0 then 1 else c - gather d n)"
  proof (cases "n = 0")
    case True
    then show ?thesis by simp
  next
    case False
    then have "d ! n \<le> c" using lp(2) by simp
    moreover have "gather d n = d ! n" using lp(1) assms(2) by (simp add: gather_nth)
    ultimately show ?thesis using False by simp
  qed
  then show ?case using st lp(1) by simp
qed

lemma row_reach_capacity_le:
  assumes "row_fits d" and "length d = N" and "list_all (\<lambda>y. 0 \<le> y) d"
  shows "row_reach det d N t r \<Longrightarrow> snd (snd r) \<le> 1"
proof (induction rule: row_reach.induct)
  case reach_init
  then show ?case by simp
next
  case (reach_step t s v c n)
  then have N: "0 < N" by simp
  from row_reach_capacity[OF assms(1,2) reach_step.hyps(1)] N
  have c: "0 \<le> c" and cur: "s ! t = 0 \<longrightarrow> c = 1" by simp_all
  note lp = legal_pick[OF assms(1,2) N c cur reach_step.hyps(3)]
  have "gather d n = d ! n" using lp(1) assms(2) by (simp add: gather_nth)
  moreover have "0 \<le> d ! n" using assms(3) lp(1) assms(2) by (simp add: list_all_length)
  ultimately show ?case using reach_step.IH by simp
qed

lemma fit_row:
  assumes "well_shaped P" and "demands_fit P" and "b < batch_size P"
  shows "row_fits (snd P ! b)" and "length (snd P ! b) = seq_length P"
  using assms by (simp_all add: well_shaped_def demands_fit_def list_all_length)

subsection \<open>The example satisfies the input conditions\<close>

lemma demo_conditions:
  "well_shaped demo_problem" "demands_fit demo_problem" "demands_nonneg demo_problem"
  "0 < batch_size demo_problem" "seq_length demo_problem = 2"
  by (simp_all add: well_shaped_def demands_fit_def demands_nonneg_def row_fits_def
      batch_size_def seq_length_def demo_problem_def)

lemma demo_sampler_sound: "sampler_sound demo_ext"
  unfolding sampler_sound_def
proof (intro allI impI)
  fix key :: unit and a :: nat and xs :: "fnum list"
  assume h: "\<not> list_ex (\<lambda>x. x = NaN) xs \<and> list_ex (\<lambda>x. x \<noteq> NegInf) xs"
  then have nonan: "NaN \<notin> set xs" by (auto simp: list_ex_iff)
  from h obtain x where "x \<in> set xs" "x \<noteq> NegInf" by (auto simp: list_ex_iff)
  then have "\<exists>j<length xs. xs ! j \<noteq> NegInf" by (metis in_set_conv_nth)
  from argmax_finite[OF nonan this]
  show "random_choice demo_ext key a xs < length xs \<and> xs ! random_choice demo_ext key a xs \<noteq> NegInf"
    by (simp add: demo_ext_def)
qed

subsection \<open>C2: the mask always leaves a node allowed\<close>

text \<open>
  Claim C2. For every problem in which the depot's demand is 0 and every customer's demand
  is at most 1, in every iteration \<open>idx\<close> of the loop (\<open>1 \<le> idx < 2 * seq_len\<close>) and for
  every batch element \<open>b\<close>, the mask computed in that iteration has an entry that is false:
  some node is allowed. Action selection is argmax, or sampling that never draws a node of
  probability zero.
\<close>

theorem mask_leaves_node_allowed:
  assumes "well_shaped problems" and "demands_fit problems"
    and "deterministic \<or> sampler_sound ext"
    and "b < batch_size problems" and "1 \<le> idx" and "idx < 2 * seq_length problems"
  shows "\<exists>j<seq_length problems.
           \<not> step_mask problems idx (decode_state ext params rng0 problems deterministic (idx - 1)) ! b ! j"
proof -
  let ?st = "decode_state ext params rng0 problems deterministic (idx - 1)"
  let ?N = "seq_length problems"
  have N: "0 < ?N" using assms(5,6) by simp
  have t: "idx - 1 < 2 * ?N \<or> idx - 1 = 0" using assms(6) by arith
  from decode_state_reach[OF assms(4) assms(3) t]
  have rr: "row_reach deterministic (snd problems ! b) ?N (idx - 1)
      (sequences ?st ! b, visited ?st ! b, capacities ?st ! b)"
    by (simp add: row_of_def)
  note fr = fit_row[OF assms(1,2,4)]
  from row_reach_capacity[OF fr rr] N
  have c: "0 \<le> capacities ?st ! b"
    and cur: "sequences ?st ! b ! (idx - 1) = 0 \<longrightarrow> capacities ?st ! b = 1" by simp_all
  from allowed_exists[OF fr N c cur] show ?thesis
    using assms(4) by (simp add: step_mask_nth)
qed

text \<open>The third iteration of the example, with sampling.\<close>

theorem mask_leaves_node_allowed_witness:
  "well_shaped demo_problem \<and> demands_fit demo_problem \<and> sampler_sound demo_ext \<and>
   0 < batch_size demo_problem \<and> (1 :: nat) \<le> 3 \<and> 3 < 2 * seq_length demo_problem \<and>
   (\<exists>j<seq_length demo_problem.
      \<not> step_mask demo_problem 3 (decode_state demo_ext ((), ()) () demo_problem False (3 - 1)) ! 0 ! j)"
proof -
  have s: "False \<or> sampler_sound demo_ext" using demo_sampler_sound by simp
  have i: "(1 :: nat) \<le> 3" "3 < 2 * seq_length demo_problem" by (simp_all add: demo_conditions)
  from mask_leaves_node_allowed[OF demo_conditions(1,2) s demo_conditions(4) i, of "((), ())" "()"]
  show ?thesis using demo_conditions demo_sampler_sound i by blast
qed

subsection \<open>C10: the remaining capacity stays in the unit interval\<close>

text \<open>
  Claim C10. For every problem whose demands lie in \<open>[0, 1]\<close> with depot demand 0, the
  remaining capacity of every batch element is 1 before the loop, and after every number
  \<open>t\<close> of iterations (\<open>t \<le> 2 * seq_len - 1\<close>) it is at least 0 and at most 1.
\<close>

theorem capacity_in_unit_interval:
  assumes "well_shaped problems" and "demands_fit problems" and "demands_nonneg problems"
    and "deterministic \<or> sampler_sound ext"
    and "b < batch_size problems" and "t \<le> 2 * seq_length problems - 1"
  shows "capacities (decode_state ext params rng0 problems deterministic 0) ! b = 1 \<and>
         0 \<le> capacities (decode_state ext params rng0 problems deterministic t) ! b \<and>
         capacities (decode_state ext params rng0 problems deterministic t) ! b \<le> 1"
proof -
  let ?st = "decode_state ext params rng0 problems deterministic t"
  let ?N = "seq_length problems"
  have t: "t < 2 * ?N \<or> t = 0" using assms(6) by arith
  from decode_state_reach[OF assms(5) assms(4) t]
  have rr: "row_reach deterministic (snd problems ! b) ?N t
      (sequences ?st ! b, visited ?st ! b, capacities ?st ! b)"
    by (simp add: row_of_def)
  note fr = fit_row[OF assms(1,2,5)]
  have nn: "list_all (\<lambda>y. 0 \<le> y) (snd problems ! b)"
    using assms(1,3,5) by (simp add: well_shaped_def demands_nonneg_def list_all_length)
  have "capacities (decode_state ext params rng0 problems deterministic 0) ! b = 1"
    using assms(5) by (simp add: decode_state_def fori_loop_def split_def decode_init_def Let_def)
  moreover have "0 \<le> capacities ?st ! b" using row_reach_capacity[OF fr rr] by simp
  moreover have "capacities ?st ! b \<le> 1" using row_reach_capacity_le[OF fr nn rr] by simp
  ultimately show ?thesis by simp
qed

text \<open>After the first iteration of the example the vehicle has served the customer of
  demand \<open>1/2\<close>.\<close>

theorem capacity_in_unit_interval_witness:
  "well_shaped demo_problem \<and> demands_fit demo_problem \<and> demands_nonneg demo_problem \<and>
   0 < batch_size demo_problem \<and> (1 :: nat) \<le> 2 * seq_length demo_problem - 1 \<and>
   capacities (decode_state demo_ext ((), ()) () demo_problem True 0) ! 0 = 1 \<and>
   0 \<le> capacities (decode_state demo_ext ((), ()) () demo_problem True 1) ! 0 \<and>
   capacities (decode_state demo_ext ((), ()) () demo_problem True 1) ! 0 \<le> 1 \<and>
   capacities (decode_state demo_ext ((), ()) () demo_problem True 1) ! 0 = 1 / 2"
proof -
  have s: "True \<or> sampler_sound demo_ext" by simp
  have i: "(1 :: nat) \<le> 2 * seq_length demo_problem - 1" by (simp add: demo_conditions)
  have v: "capacities (decode_state demo_ext ((), ()) () demo_problem True 1) ! 0 = 1 / 2"
    by (simp add: demo_eval)
  from capacity_in_unit_interval[OF demo_conditions(1,2,3) s demo_conditions(4) i, of "((), ())" "()"]
  show ?thesis using demo_conditions i v by blast
qed

subsection \<open>The result of solve and the final loop state\<close>

lemma decode_greedy_state:
  "decode_greedy ext params r P det =
     (sequences (decode_state ext params r P det (2 * seq_length P - 1)),
      log_probs (decode_state ext params r P det (2 * seq_length P - 1)))"
proof (cases "seq_length P = 0")
  case True
  then show ?thesis
    by (simp add: decode_greedy_def decode_state_def fori_loop_def split_def Let_def)
next
  case False
  then have "Suc (2 * seq_length P - 1) = 2 * seq_length P" by simp
  then show ?thesis
    by (simp add: decode_greedy_def decode_state_def split_def Let_def)
qed

lemma solve_routes:
  "snd (snd (solve ext params r P det)) =
     sequences (decode_state ext params r P det (2 * seq_length P - 1))"
  by (simp add: solve_def decode_greedy_state Let_def)

lemma solve_log_probs:
  "fst (snd (solve ext params r P det)) =
     log_probs (decode_state ext params r P det (2 * seq_length P - 1))"
  by (simp add: solve_def decode_greedy_state Let_def)

lemma final_row_reach:
  assumes "b < batch_size P" and "det \<or> sampler_sound ext"
  shows "\<exists>v c. row_reach det (snd P ! b) (seq_length P) (2 * seq_length P - 1)
           (snd (snd (solve ext params r P det)) ! b, v, c)"
proof -
  have "2 * seq_length P - 1 < 2 * seq_length P \<or> 2 * seq_length P - 1 = 0" by arith
  from decode_state_reach[OF assms this, of params r]
  show ?thesis by (auto simp add: row_of_def solve_routes)
qed

lemma demo_route:
  "snd (snd (solve demo_ext ((), ()) () demo_problem True)) = [[0, 1, 0, 0]]"
proof -
  have "2 * seq_length demo_problem - 1 = 3" by (simp add: demo_conditions)
  moreover have "sequences (decode_state demo_ext ((), ()) () demo_problem True 3) = [[0, 1, 0, 0]]"
    by (simp add: demo_eval)
  ultimately show ?thesis by (simp add: solve_routes)
qed

subsection \<open>C3: the load between two depot visits\<close>



subsection \<open>C4: every customer is visited\<close>

lemma row_reach_visited:
  "row_reach det d N t r \<Longrightarrow>
     (case r of (s, v, c) \<Rightarrow> (0 < N \<longrightarrow> v ! 0) \<and> (\<forall>j<N. v ! j \<longrightarrow> j = 0 \<or> j \<in> set (take (Suc t) s)))"
proof (induction rule: row_reach.induct)
  case reach_init
  then show ?case by (auto simp: nth_list_update)
next
  case (reach_step t s v c n)
  from row_reach_shape[OF reach_step.hyps(1)] have len: "length s = 2 * N" "length v = N"
    by simp_all
  have tk: "take (Suc (Suc t)) (s[Suc t := n]) = take (Suc t) s @ [n]"
    using len reach_step.hyps(2) by (simp add: take_Suc_conv_app_nth)
  have v0: "0 < N \<longrightarrow> v[n := True] ! 0"
  proof (cases "n < length v")
    case True
    then show ?thesis using reach_step.IH by (simp add: nth_list_update)
  next
    case False
    then have "v[n := True] = v" by (simp add: list_update_beyond)
    then show ?thesis using reach_step.IH by simp
  qed
  have "j = 0 \<or> j \<in> set (take (Suc (Suc t)) (s[Suc t := n]))" if "j < N" "v[n := True] ! j" for j
  proof (cases "j = n")
    case True
    then show ?thesis using tk by simp
  next
    case False
    then have "v ! j" using that by simp
    then have "j = 0 \<or> j \<in> set (take (Suc t) s)" using reach_step.IH that by simp
    then show ?thesis using tk by auto
  qed
  then show ?case using v0 by simp
qed

lemma unvisited_update:
  assumes "n < N" and "length v = N" and "\<not> v ! n"
  shows "card {j. j < N \<and> \<not> v[n := True] ! j} = card {j. j < N \<and> \<not> v ! j} - 1"
    and "0 < card {j. j < N \<and> \<not> v ! j}"
proof -
  let ?U = "{j. j < N \<and> \<not> v ! j}"
  have fin: "finite ?U" by simp
  have mem: "n \<in> ?U" using assms by simp
  have "{j. j < N \<and> \<not> v[n := True] ! j} = ?U - {n}"
    using assms by (auto simp: nth_list_update)
  then show "card {j. j < N \<and> \<not> v[n := True] ! j} = card ?U - 1"
    using fin mem by simp
  show "0 < card ?U" using fin mem by (auto simp: card_gt_0_iff)
qed

lemma unvisited_init:
  "card {j. j < N \<and> \<not> (replicate N False)[0 := True] ! j} = N - 1"
proof -
  have "{j. j < N \<and> \<not> (replicate N False)[0 := True] ! j} = {1..<N}"
    by (auto simp: nth_list_update split: if_splits)
  then show ?thesis by simp
qed

lemma row_reach_progress:
  assumes "row_fits d" and "length d = N"
  shows "row_reach det d N t r \<Longrightarrow>
     (case r of (s, v, c) \<Rightarrow>
        card {j. j < N \<and> \<not> v ! j} = 0 \<or>
        2 * card {j. j < N \<and> \<not> v ! j} + t + (if s ! t = 0 then 0 else 1) + 2 \<le> 2 * N)"
proof (induction rule: row_reach.induct)
  case reach_init
  show ?case
  proof (cases "N = 0")
    case True
    then show ?thesis by simp
  next
    case False
    have "replicate (2 * N) (0 :: nat) ! 0 = 0" using False by simp
    moreover have "2 * (N - 1) + 0 + 0 + 2 \<le> 2 * N" using False by arith
    ultimately have "2 * card {j. j < N \<and> \<not> (replicate N False)[0 := True] ! j} + 0 +
        (if replicate (2 * N) (0 :: nat) ! 0 = 0 then 0 else 1) + 2 \<le> 2 * N"
      unfolding unvisited_init by simp
    then show ?thesis by simp
  qed
next
  case (reach_step t s v c n)
  then have N: "0 < N" by simp
  from row_reach_capacity[OF assms reach_step.hyps(1)] N
  have c: "0 \<le> c" and cur: "s ! t = 0 \<longrightarrow> c = 1" by simp_all
  from row_reach_shape[OF reach_step.hyps(1)] have len: "length s = 2 * N" "length v = N"
    by simp_all
  from row_reach_visited[OF reach_step.hyps(1)] N have v0: "v ! 0" by simp
  note lp = legal_pick[OF assms N c cur reach_step.hyps(3)]
  let ?U = "card {j. j < N \<and> \<not> v ! j}"
  let ?U' = "card {j. j < N \<and> \<not> v[n := True] ! j}"
  have st: "s[Suc t := n] ! Suc t = n" using len reach_step.hyps(2) by simp
  from reach_step.IH have ih: "?U = 0 \<or> 2 * ?U + t + (if s ! t = 0 then 0 else 1) + 2 \<le> 2 * N"
    by simp
  have "?U' = 0 \<or> 2 * ?U' + Suc t + (if n = 0 then 0 else 1) + 2 \<le> 2 * N"
  proof (cases "n = 0")
    case True
    then have same: "v[n := True] = v" using v0 by (simp add: list_update_same_conv len N)
    from lp(3)[OF True] show ?thesis
    proof
      assume "\<forall>j<N. j \<noteq> 0 \<longrightarrow> v ! j"
      then have "{j. j < N \<and> \<not> v ! j} = {}" using v0 by (metis (mono_tags, lifting) Collect_empty_eq)
      then show ?thesis using same by simp
    next
      assume "s ! t \<noteq> 0"
      then show ?thesis using ih same True by auto
    qed
  next
    case False
    then have nv: "\<not> v ! n" using lp(2) by simp
    define U where "U = ?U"
    define U' where "U' = ?U'"
    define x :: nat where "x = (if s ! t = 0 then 0 else 1)"
    from unvisited_update[OF lp(1) len(2) nv] have "U' = U - 1" "0 < U"
      unfolding U_def U'_def by simp_all
    moreover from ih have "U = 0 \<or> 2 * U + t + x + 2 \<le> 2 * N"
      unfolding U_def x_def .
    ultimately have "U' = 0 \<or> 2 * U' + Suc t + 1 + 2 \<le> 2 * N" by arith
    then show ?thesis using False unfolding U'_def by simp
  qed
  then show ?case using st by simp
qed

text \<open>
  Claim C4. For every problem whose demands lie in \<open>[0, 1]\<close> with depot demand 0, every
  customer index \<open>j\<close> with \<open>1 \<le> j < seq_len\<close> occurs in the route returned by \<open>solve\<close> for
  every batch element, and that route has length \<open>2 * seq_len\<close>.
\<close>

theorem every_customer_visited:
  assumes "well_shaped problems" and "demands_fit problems" and "demands_nonneg problems"
    and "deterministic \<or> sampler_sound ext"
    and "b < batch_size problems"
    and "1 \<le> j" and "j < seq_length problems"
  shows "j \<in> set (snd (snd (solve ext params rng0 problems deterministic)) ! b) \<and>
         length (snd (snd (solve ext params rng0 problems deterministic)) ! b) = 2 * seq_length problems"
proof -
  let ?d = "snd problems ! b"
  let ?N = "seq_length problems"
  let ?route = "snd (snd (solve ext params rng0 problems deterministic)) ! b"
  note fr = fit_row[OF assms(1,2,5)]
  from final_row_reach[OF assms(5,4), of params rng0] obtain v c where
    rr: "row_reach deterministic ?d ?N (2 * ?N - 1) (?route, v, c)"
    by auto
  from row_reach_shape[OF rr] have len: "length ?route = 2 * ?N" "length v = ?N" by simp_all
  have fin: "finite {j. j < ?N \<and> \<not> v ! j}" by simp
  from row_reach_progress[OF fr rr] assms(7) have "card {j. j < ?N \<and> \<not> v ! j} = 0"
    by (auto split: if_splits)
  then have "{j. j < ?N \<and> \<not> v ! j} = {}" using fin by simp
  then have "v ! j" using assms(7) by blast
  then have "j \<in> set (take (Suc (2 * ?N - 1)) ?route)"
    using row_reach_visited[OF rr] assms(6,7) by auto
  then have "j \<in> set ?route" by (rule in_set_takeD)
  then show ?thesis using len by simp
qed

theorem every_customer_visited_witness:
  "well_shaped demo_problem \<and> demands_fit demo_problem \<and> demands_nonneg demo_problem \<and>
   0 < batch_size demo_problem \<and> (1 :: nat) < seq_length demo_problem \<and>
   1 \<in> set (snd (snd (solve demo_ext ((), ()) () demo_problem True)) ! 0) \<and>
   length (snd (snd (solve demo_ext ((), ()) () demo_problem True)) ! 0) = 2 * seq_length demo_problem"
proof -
  have s: "True \<or> sampler_sound demo_ext" by simp
  have i: "(1 :: nat) \<le> 1" "(1 :: nat) < seq_length demo_problem"
    by (simp_all add: demo_conditions)
  from every_customer_visited[OF demo_conditions(1,2,3) s demo_conditions(4) i, of "((), ())" "()"]
  show ?thesis using demo_conditions i(2) by blast
qed

subsection \<open>C5: when a route stays where it is\<close>

lemma row_reach_repeat_det:
  "row_reach True d N t r \<Longrightarrow>
     (case r of (s, v, c) \<Rightarrow> \<forall>k. 0 < k \<and> k \<le> t \<and> s ! k = s ! (k - 1) \<longrightarrow> s ! k = 0)"
proof (induction rule: row_reach.induct)
  case reach_init
  then show ?case by simp
next
  case (reach_step t s v c n)
  let ?m = "next_node_mask_row N ((replicate N True)[0 := False]) d v c (s ! t)"
  let ?s = "s[Suc t := n]"
  from row_reach_shape[OF reach_step.hyps(1)] have len: "length s = 2 * N" by simp
  have st: "?s ! Suc t = n" using len reach_step.hyps(2) by simp
  have new: "n = s ! t \<longrightarrow> n = 0"
  proof (cases "n = 0")
    case True
    then show ?thesis by simp
  next
    case False
    then have "list_ex (\<lambda>x. \<not> x) ?m" using reach_step.hyps(3) by (auto simp: picks_def split: if_splits)
    then have "n < N" "\<not> ?m ! n" using reach_step.hyps(3) by (simp_all add: picks_def mask_row_length)
    then show ?thesis using False by (simp add: mask_row_nth)
  qed
  have "?s ! k = 0" if "0 < k" "k \<le> Suc t" "?s ! k = ?s ! (k - 1)" for k
  proof (cases "k = Suc t")
    case True
    then show ?thesis using that st new by simp
  next
    case False
    then have kt: "k \<le> t" using that by simp
    then have e: "?s ! k = s ! k" "?s ! (k - 1) = s ! (k - 1)" by simp_all
    from reach_step.IH have ih: "\<forall>k. 0 < k \<and> k \<le> t \<and> s ! k = s ! (k - 1) \<longrightarrow> s ! k = 0"
      by simp
    from that(3) e have "s ! k = s ! (k - 1)" by simp
    then have "s ! k = 0" using ih that(1) kt by blast
    then show ?thesis using e by simp
  qed
  then have "\<forall>k. 0 < k \<and> k \<le> Suc t \<and> ?s ! k = ?s ! (k - 1) \<longrightarrow> ?s ! k = 0"
    by blast
  then show ?case unfolding prod.case .
qed

lemma row_reach_repeat:
  assumes "row_fits d" and "length d = N"
  shows "row_reach det d N t r \<Longrightarrow>
     (case r of (s, v, c) \<Rightarrow> \<forall>k. 0 < k \<and> k \<le> t \<and> s ! k = s ! (k - 1) \<longrightarrow>
        s ! k = 0 \<and> (\<forall>j<N. j \<noteq> 0 \<longrightarrow> j \<in> set (take k s)))"
proof (induction rule: row_reach.induct)
  case reach_init
  then show ?case by simp
next
  case (reach_step t s v c n)
  then have N: "0 < N" by simp
  from row_reach_capacity[OF assms reach_step.hyps(1)] N
  have c: "0 \<le> c" and cur: "s ! t = 0 \<longrightarrow> c = 1" by simp_all
  from row_reach_shape[OF reach_step.hyps(1)] have len: "length s = 2 * N" by simp
  note lp = legal_pick[OF assms N c cur reach_step.hyps(3)]
  let ?s = "s[Suc t := n]"
  have st: "?s ! Suc t = n" using len reach_step.hyps(2) by simp
  have tk: "take k ?s = take k s" if "k \<le> Suc t" for k using that by simp
  have new: "n = 0 \<and> (\<forall>j<N. j \<noteq> 0 \<longrightarrow> j \<in> set (take (Suc t) s))" if "n = s ! t"
  proof -
    have n0: "n = 0" using lp(2) that by blast
    then have "\<forall>j<N. j \<noteq> 0 \<longrightarrow> v ! j" using lp(3) that by auto
    then have "\<forall>j<N. j \<noteq> 0 \<longrightarrow> j \<in> set (take (Suc t) s)"
      using row_reach_visited[OF reach_step.hyps(1)] by auto
    then show ?thesis using n0 by simp
  qed
  have "?s ! k = 0 \<and> (\<forall>j<N. j \<noteq> 0 \<longrightarrow> j \<in> set (take k ?s))"
    if "0 < k" "k \<le> Suc t" "?s ! k = ?s ! (k - 1)" for k
  proof (cases "k = Suc t")
    case True
    then have "n = s ! t" using that st by simp
    from new[OF this] show ?thesis using True st tk[of "Suc t"] by simp
  next
    case False
    then have kt: "k \<le> t" using that by simp
    then have e: "?s ! k = s ! k" "?s ! (k - 1) = s ! (k - 1)" by simp_all
    from reach_step.IH have ih: "\<forall>k. 0 < k \<and> k \<le> t \<and> s ! k = s ! (k - 1) \<longrightarrow>
        s ! k = 0 \<and> (\<forall>j<N. j \<noteq> 0 \<longrightarrow> j \<in> set (take k s))"
      by simp
    from that(3) e have "s ! k = s ! (k - 1)" by simp
    then have "s ! k = 0 \<and> (\<forall>j<N. j \<noteq> 0 \<longrightarrow> j \<in> set (take k s))"
      using ih that(1) kt by blast
    then show ?thesis using e tk[of k] kt by simp
  qed
  then have "\<forall>k. 0 < k \<and> k \<le> Suc t \<and> ?s ! k = ?s ! (k - 1) \<longrightarrow>
      ?s ! k = 0 \<and> (\<forall>j<N. j \<noteq> 0 \<longrightarrow> j \<in> set (take k ?s))"
    by blast
  then show ?case unfolding prod.case .
qed

text \<open>
  Claim C5, as the code has it. For every batch element and every position \<open>t\<close> of the route
  with \<open>1 \<le> t < 2 * seq_len\<close>: if the node written at position \<open>t\<close> equals the node at
  position \<open>t - 1\<close>, then with argmax selection that node is the depot; and for a problem
  whose customer demands are at most 1 with depot demand 0 (argmax, or sampling that never
  draws a node of probability zero) that node is the depot and every customer occurs in
  the route before position \<open>t\<close>. So a customer is never followed by itself, and the depot
  follows itself only once all customers have been visited.
\<close>

theorem repeat_only_at_depot:
  assumes "b < batch_size problems" and "1 \<le> t" and "t < 2 * seq_length problems"
    and "route = snd (snd (solve ext params rng0 problems deterministic)) ! b"
    and "route ! t = route ! (t - 1)"
  shows "(deterministic \<longrightarrow> route ! t = 0) \<and>
         (well_shaped problems \<and> demands_fit problems \<and> (deterministic \<or> sampler_sound ext) \<longrightarrow>
            route ! t = 0 \<and> (\<forall>j. 1 \<le> j \<and> j < seq_length problems \<longrightarrow> j \<in> set (take t route)))"
proof (intro conjI impI)
  assume det: deterministic
  then have "deterministic \<or> sampler_sound ext" by simp
  from final_row_reach[OF assms(1) this, of params rng0] assms(4) det obtain v c where
    "row_reach True (snd problems ! b) (seq_length problems) (2 * seq_length problems - 1) (route, v, c)"
    by auto
  from row_reach_repeat_det[OF this] assms(2,3,5) show "route ! t = 0" by simp
next
  assume h: "well_shaped problems \<and> demands_fit problems \<and> (deterministic \<or> sampler_sound ext)"
  then have fr: "row_fits (snd problems ! b)" "length (snd problems ! b) = seq_length problems"
    using fit_row[of problems b] assms(1) by simp_all
  from h final_row_reach[OF assms(1), of deterministic ext params rng0] assms(4) obtain v c where
    "row_reach deterministic (snd problems ! b) (seq_length problems) (2 * seq_length problems - 1) (route, v, c)"
    by auto
  from row_reach_repeat[OF fr this] assms(2,3,5)
  have r: "route ! t = 0 \<and> (\<forall>j<seq_length problems. j \<noteq> 0 \<longrightarrow> j \<in> set (take t route))"
    by simp
  then show "route ! t = 0" by simp
  from r show "\<forall>j. 1 \<le> j \<and> j < seq_length problems \<longrightarrow> j \<in> set (take t route)" by simp
qed

text \<open>In the route depot, customer, depot, depot of the example the last two entries are
  equal: both are the depot, and the customer occurs before them.\<close>

theorem repeat_only_at_depot_witness:
  "0 < batch_size demo_problem \<and> (1 :: nat) \<le> 3 \<and> 3 < 2 * seq_length demo_problem \<and>
   well_shaped demo_problem \<and> demands_fit demo_problem \<and>
   snd (snd (solve demo_ext ((), ()) () demo_problem True)) ! 0 ! 3
     = snd (snd (solve demo_ext ((), ()) () demo_problem True)) ! 0 ! (3 - 1) \<and>
   snd (snd (solve demo_ext ((), ()) () demo_problem True)) ! 0 ! 3 = 0 \<and>
   1 \<in> set (take 3 (snd (snd (solve demo_ext ((), ()) () demo_problem True)) ! 0))"
proof -
  let ?route = "snd (snd (solve demo_ext ((), ()) () demo_problem True)) ! 0"
  have i: "(1 :: nat) \<le> 3" "3 < 2 * seq_length demo_problem" by (simp_all add: demo_conditions)
  have e: "?route ! 3 = ?route ! (3 - 1)" by (simp add: demo_route)
  have j: "(1 :: nat) \<le> 1 \<and> 1 < seq_length demo_problem" by (simp add: demo_conditions)
  from repeat_only_at_depot[OF demo_conditions(4) i refl e]
  have "?route ! 3 = 0 \<and> (\<forall>j. 1 \<le> j \<and> j < seq_length demo_problem \<longrightarrow> j \<in> set (take 3 ?route))"
    using demo_conditions(1,2) by blast
  then have "?route ! 3 = 0 \<and> 1 \<in> set (take 3 ?route)" using j by blast
  then show ?thesis using demo_conditions(1,2,4) i e by blast
qed

text \<open>
  The claim as it was stated (the entry at position \<open>t\<close> never equals the entry at \<open>t - 1\<close>)
  fails at \<open>t = 3\<close> of the example: the mask of the source allows the depot to follow the
  depot once all customers are visited.
\<close>

theorem self_loop_counterexample:
  "(1 :: nat) \<le> 3 \<and> 3 < 2 * seq_length demo_problem \<and>
   snd (snd (solve demo_ext ((), ()) () demo_problem True)) ! 0 ! 3
     = snd (snd (solve demo_ext ((), ()) () demo_problem True)) ! 0 ! (3 - 1)"
  by (simp add: demo_route demo_conditions)

subsection \<open>C7: the accumulated log-probability\<close>

lemma decode_logits_Suc:
  "decode_logits ext params r P det (Suc t) =
     step_logits ext (snd params) (encoder_apply ext (fst params) (snd (random_split ext r)) P det)
       P det (Suc t) (decode_state ext params r P det t)"
  by (simp add: decode_logits_def split_def Let_def)

lemma decode_state_sequences_Suc:
  assumes "b < batch_size P"
  shows "sequences (decode_state ext params r P det (Suc t)) ! b =
     (sequences (decode_state ext params r P det t) ! b)
       [Suc t := step_node ext (snd params)
          (encoder_apply ext (fst params) (snd (random_split ext r)) P det) P det (Suc t)
          (decode_state ext params r P det t) b]"
  using decode_iteration_row[OF assms, of ext "snd params" _ det "Suc t" "decode_state ext params r P det t"]
  by (simp add: decode_state_Suc row_of_def Let_def)

lemma decode_state_sequences_length:
  assumes "b < batch_size P"
  shows "length (sequences (decode_state ext params r P det t) ! b) = 2 * seq_length P"
proof (induction t)
  case 0
  show ?case using assms
    by (simp add: decode_state_def fori_loop_def split_def decode_init_def Let_def)
next
  case (Suc t)
  then show ?case by (simp add: decode_state_sequences_Suc[OF assms])
qed

lemma decode_state_log_probs_Suc:
  assumes "b < batch_size P"
  shows "log_probs (decode_state ext params r P det (Suc t)) ! b =
     fnum_add (log_probs (decode_state ext params r P det t) ! b)
       (gather (log_softmax (decode_logits ext params r P det (Suc t) ! b))
          (step_node ext (snd params)
            (encoder_apply ext (fst params) (snd (random_split ext r)) P det) P det (Suc t)
            (decode_state ext params r P det t) b))"
  using assms
  by (simp add: decode_state_Suc decode_logits_Suc decode_iteration_def step_node_def Let_def split_def)

lemma decode_state_log_probs:
  assumes "b < batch_size P"
  shows "t \<le> 2 * seq_length P - 1 \<Longrightarrow>
     log_probs (decode_state ext params r P det t) ! b =
       foldl fnum_add (Fin 0)
         (map (\<lambda>k. gather (log_softmax (decode_logits ext params r P det k ! b))
                      (sequences (decode_state ext params r P det t) ! b ! k))
              [1..<Suc t])"
proof (induction t)
  case 0
  show ?case using assms
    by (simp add: decode_state_def fori_loop_def split_def decode_init_def Let_def)
next
  case (Suc t)
  let ?n = "step_node ext (snd params)
      (encoder_apply ext (fst params) (snd (random_split ext r)) P det) P det (Suc t)
      (decode_state ext params r P det t) b"
  let ?f = "\<lambda>s k. gather (log_softmax (decode_logits ext params r P det k ! b)) (s ! k)"
  let ?s = "sequences (decode_state ext params r P det t) ! b"
  let ?s' = "sequences (decode_state ext params r P det (Suc t)) ! b"
  have s': "?s' = ?s[Suc t := ?n]" by (rule decode_state_sequences_Suc[OF assms])
  have "length ?s = 2 * seq_length P" by (rule decode_state_sequences_length[OF assms])
  then have lt: "Suc t < length ?s" using Suc.prems by arith
  have last: "?s' ! Suc t = ?n" using s' lt by simp
  have old: "map (?f ?s') [1..<Suc t] = map (?f ?s) [1..<Suc t]"
  proof (rule map_cong)
    fix k assume "k \<in> set [1..<Suc t]"
    then have "k < Suc t" by (simp only: set_upt atLeastLessThan_iff)
    then have "k \<noteq> Suc t" by simp
    then have "?s' ! k = ?s ! k" unfolding s' by simp
    then show "?f ?s' k = ?f ?s k" by (simp only:)
  qed simp
  from Suc have ih: "log_probs (decode_state ext params r P det t) ! b =
      foldl fnum_add (Fin 0) (map (?f ?s) [1..<Suc t])" by simp
  have "[1..<Suc (Suc t)] = [1..<Suc t] @ [Suc t]" by simp
  then have "foldl fnum_add (Fin 0) (map (?f ?s') [1..<Suc (Suc t)]) =
      fnum_add (foldl fnum_add (Fin 0) (map (?f ?s') [1..<Suc t])) (?f ?s' (Suc t))"
    by (simp only: map_append foldl_append list.map foldl.simps)
  also have "\<dots> = fnum_add (log_probs (decode_state ext params r P det t) ! b)
      (gather (log_softmax (decode_logits ext params r P det (Suc t) ! b)) ?n)"
    unfolding old ih[symmetric] last ..
  finally show ?case using decode_state_log_probs_Suc[OF assms, of ext params r det t] by simp
qed

text \<open>
  Claim C7. For every call of \<open>solve\<close> and every batch element, the returned log-probability
  is the sum, accumulated from 0 over the iterations \<open>t = 1, \<dots>, 2 * seq_len - 1\<close> in this
  order, of the log-softmax of the logits of iteration \<open>t\<close> read at the node written at
  position \<open>t\<close> of the returned route.
\<close>

theorem log_probs_sum:
  assumes "b < batch_size problems"
  shows "fst (snd (solve ext params rng0 problems deterministic)) ! b =
     foldl fnum_add (Fin 0)
       (map (\<lambda>t. gather (log_softmax (decode_logits ext params rng0 problems deterministic t ! b))
                    (snd (snd (solve ext params rng0 problems deterministic)) ! b ! t))
            [1..<2 * seq_length problems])"
proof (cases "seq_length problems = 0")
  case True
  then show ?thesis using assms
    by (simp add: solve_log_probs decode_state_def fori_loop_def split_def decode_init_def Let_def)
next
  case False
  then have "Suc (2 * seq_length problems - 1) = 2 * seq_length problems" by simp
  then show ?thesis
    using decode_state_log_probs[OF assms, of "2 * seq_length problems - 1" ext params rng0 deterministic]
    by (simp add: solve_log_probs solve_routes)
qed

text \<open>In the example every chosen node has probability 1, and the log-probability is 0.\<close>

lemma demo_log_probs:
  "log_probs (decode_state demo_ext ((), ()) () demo_problem True 3) = [Fin 0]"
  by (simp add: demo_eval log_softmax_def)

theorem log_probs_sum_witness:
  "0 < batch_size demo_problem \<and>
   fst (snd (solve demo_ext ((), ()) () demo_problem True)) ! 0 =
     foldl fnum_add (Fin 0)
       (map (\<lambda>t. gather (log_softmax (decode_logits demo_ext ((), ()) () demo_problem True t ! 0))
                    (snd (snd (solve demo_ext ((), ()) () demo_problem True)) ! 0 ! t))
            [1..<2 * seq_length demo_problem]) \<and>
   fst (snd (solve demo_ext ((), ()) () demo_problem True)) ! 0 = Fin 0"
proof -
  have "2 * seq_length demo_problem - 1 = 3" by (simp add: demo_conditions)
  then have "fst (snd (solve demo_ext ((), ()) () demo_problem True)) ! 0 = Fin 0"
    by (simp add: solve_log_probs demo_log_probs)
  then show ?thesis
    using log_probs_sum[OF demo_conditions(4), of demo_ext "((), ())" "()" True] demo_conditions(4)
    by blast
qed

subsection \<open>C6: deterministic decoding does not depend on the seed\<close>

lemma step_mask_agree:
  assumes "sequences st = sequences st'" and "visited st = visited st'"
    and "capacities st = capacities st'"
  shows "step_mask P idx st = step_mask P idx st'"
  using assms by (simp add: step_mask_def)

lemma step_logits_agree:
  assumes "layers_ignore_key ext"
    and "sequences st = sequences st'" and "visited st = visited st'"
    and "capacities st = capacities st'"
  shows "step_logits ext pd enc P True idx st = step_logits ext pd enc P True idx st'"
proof -
  let ?cur = "map (\<lambda>s. s ! (idx - 1)) (sequences st')"
  let ?m = "step_mask P idx st'"
  have sc: "decoder_scores ext pd (snd (random_split ext (rng st))) enc (?cur, capacities st') ?m True
      = decoder_scores ext pd (snd (random_split ext (rng st'))) enc (?cur, capacities st') ?m True"
    using assms(1) unfolding layers_ignore_key_def by blast
  have "step_logits ext pd enc P True idx st =
      PointerDecoder_call ext pd (snd (random_split ext (rng st))) enc (?cur, capacities st') ?m True"
    unfolding step_logits_def Let_def assms(2,4) step_mask_agree[OF assms(2,3,4)] ..
  also have "\<dots> = PointerDecoder_call ext pd (snd (random_split ext (rng st'))) enc (?cur, capacities st') ?m True"
    unfolding PointerDecoder_call_def Let_def sc ..
  also have "\<dots> = step_logits ext pd enc P True idx st'"
    unfolding step_logits_def Let_def ..
  finally show ?thesis .
qed

lemma decode_iteration_det:
  "sequences (decode_iteration ext pd enc P True idx st) =
     map (\<lambda>b. (sequences st ! b)[idx := map argmax (step_logits ext pd enc P True idx st) ! b])
       [0..<batch_size P]"
  "visited (decode_iteration ext pd enc P True idx st) =
     map (\<lambda>b. (visited st ! b)[map argmax (step_logits ext pd enc P True idx st) ! b := True])
       [0..<batch_size P]"
  "capacities (decode_iteration ext pd enc P True idx st) =
     map (\<lambda>b. if map argmax (step_logits ext pd enc P True idx st) ! b = 0 then 1
               else capacities st ! b -
                    gather (snd P ! b) (map argmax (step_logits ext pd enc P True idx st) ! b))
       [0..<batch_size P]"
  "log_probs (decode_iteration ext pd enc P True idx st) =
     map (\<lambda>b. fnum_add (log_probs st ! b)
                 (gather (log_softmax (step_logits ext pd enc P True idx st ! b))
                    (map argmax (step_logits ext pd enc P True idx st) ! b)))
       [0..<batch_size P]"
  by (simp_all add: decode_iteration_def step_next_def Let_def)

lemma decode_iteration_agree:
  assumes "layers_ignore_key ext"
    and "sequences st = sequences st'" and "visited st = visited st'"
    and "capacities st = capacities st'" and "log_probs st = log_probs st'"
  shows "sequences (decode_iteration ext pd enc P True idx st) =
           sequences (decode_iteration ext pd enc P True idx st') \<and>
         visited (decode_iteration ext pd enc P True idx st) =
           visited (decode_iteration ext pd enc P True idx st') \<and>
         capacities (decode_iteration ext pd enc P True idx st) =
           capacities (decode_iteration ext pd enc P True idx st') \<and>
         log_probs (decode_iteration ext pd enc P True idx st) =
           log_probs (decode_iteration ext pd enc P True idx st')"
  unfolding decode_iteration_det step_logits_agree[OF assms(1-4), of pd enc P idx] assms(2-5)
  by (intro conjI refl)

lemma decode_state_agree:
  assumes "layers_ignore_key ext"
  shows "sequences (decode_state ext params r P True t) = sequences (decode_state ext params r' P True t) \<and>
         visited (decode_state ext params r P True t) = visited (decode_state ext params r' P True t) \<and>
         capacities (decode_state ext params r P True t) = capacities (decode_state ext params r' P True t) \<and>
         log_probs (decode_state ext params r P True t) = log_probs (decode_state ext params r' P True t)"
proof (induction t)
  case 0
  show ?case by (simp add: decode_state_def fori_loop_def split_def decode_init_def Let_def)
next
  case (Suc t)
  have enc: "encoder_apply ext (fst params) (snd (random_split ext r)) P True =
      encoder_apply ext (fst params) (snd (random_split ext r')) P True"
    using assms unfolding layers_ignore_key_def by blast
  from Suc have a: "sequences (decode_state ext params r P True t) = sequences (decode_state ext params r' P True t)"
    and b: "visited (decode_state ext params r P True t) = visited (decode_state ext params r' P True t)"
    and c: "capacities (decode_state ext params r P True t) = capacities (decode_state ext params r' P True t)"
    and d: "log_probs (decode_state ext params r P True t) = log_probs (decode_state ext params r' P True t)"
    by blast+
  from decode_iteration_agree[OF assms a b c d] show ?case
    unfolding decode_state_Suc enc .
qed

text \<open>
  The networks of the source do not read their key under \<^verbatim>\<open>deterministic=True\<close>: the encoder
  block hands the flag to its attention and to its dropout, and the attention of the
  decoder has dropout rate 0.
\<close>

lemma block_ignores_key:
  assumes "flax_contract lib"
  shows "TransformerEncoderBlock_call lib rate p key x msk True =
         TransformerEncoderBlock_call lib rate p key' x msk True"
proof -
  have d: "nn_Dropout lib rate True k y = y" for k y
    using assms unfolding flax_contract_def by blast
  have m: "nn_MultiHeadDotProductAttention lib (block_mha p) rate (Some True) (flax_make_rng lib key 0) x x msk =
      nn_MultiHeadDotProductAttention lib (block_mha p) rate (Some True) (flax_make_rng lib key' 0) x x msk"
    using assms unfolding flax_contract_def by blast
  show ?thesis
    unfolding TransformerEncoderBlock_call_def Let_def d m ..
qed

lemma encoder_ignores_key:
  assumes "flax_contract lib"
  shows "VRPEncoder_call lib model p key nodes msk True = VRPEncoder_call lib model p key' nodes msk True"
proof -
  have "(\<lambda>i x. TransformerEncoderBlock_call lib (1 / 10) (encoder_blocks p ! i)
                  (flax_make_rng lib key i) x msk True) =
        (\<lambda>i x. TransformerEncoderBlock_call lib (1 / 10) (encoder_blocks p ! i)
                  (flax_make_rng lib key' i) x msk True)"
    by (intro ext) (rule block_ignores_key[OF assms])
  then show ?thesis unfolding VRPEncoder_call_def by (simp only:)
qed

lemma decoder_ignores_key:
  assumes "flax_contract lib"
  shows "PointerDecoder_scores lib model p key e s m det = PointerDecoder_scores lib model p key' e s m det"
proof -
  have a: "nn_MultiHeadDotProductAttention lib w 0 None (flax_make_rng lib key 0) q kv mk =
      nn_MultiHeadDotProductAttention lib w 0 None (flax_make_rng lib key' 0) q kv mk" for w q kv mk
    using assms unfolding flax_contract_def by blast
  show ?thesis
    by (intro ext) (simp only: PointerDecoder_scores_def a)
qed

lemma attention_model_ignores_key:
  assumes "flax_contract lib"
  shows "layers_ignore_key (attention_model lib model)"
  unfolding layers_ignore_key_def
proof (intro conjI allI)
  fix pe k k' problems
  show "encoder_apply (attention_model lib model) pe k problems True =
        encoder_apply (attention_model lib model) pe k' problems True"
    using encoder_ignores_key[OF assms, of model pe k problems None k']
    by (simp add: attention_model_def)
next
  fix pd k k' e s m
  show "decoder_scores (attention_model lib model) pd k e s m True =
        decoder_scores (attention_model lib model) pd k' e s m True"
    using decoder_ignores_key[OF assms, of model pd k e s m True k']
    by (simp add: attention_model_def)
qed

lemma solve_agree:
  assumes "layers_ignore_key ext"
  shows "solve ext params seed1 problems True = solve ext params seed2 problems True"
proof -
  from decode_state_agree[OF assms, of params seed1 problems "2 * seq_length problems - 1" seed2]
  have "decode_greedy ext params seed1 problems True = decode_greedy ext params seed2 problems True"
    unfolding decode_greedy_state by simp
  then show ?thesis unfolding solve_def by (simp only:)
qed

text \<open>
  Claim C6. With \<^verbatim>\<open>deterministic=True\<close>, \<open>solve\<close> of the attention model returns the same costs,
  log-probabilities and routes for any two seeds and the same parameters and problems
  (and so, in particular, for the same seed): the loop selects by argmax, and the encoder
  and the decoder of the source read no key. The flax layers are taken by their contract
  \<open>flax_contract\<close>.
\<close>

theorem deterministic_solve_ignores_seed:
  assumes "flax_contract lib"
  shows "solve (attention_model lib model) params seed1 problems True =
         solve (attention_model lib model) params seed2 problems True"
  by (rule solve_agree[OF attention_model_ignores_key[OF assms]])

text \<open>With the example library, whose dropout and attention read their keys whenever the
  contract lets them, the seeds 1 and 2 give the same result.\<close>

lemma demo_flax_contract: "flax_contract demo_lib"
  by (simp add: flax_contract_def demo_lib_def)

theorem deterministic_solve_ignores_seed_witness:
  "flax_contract demo_lib \<and>
   solve (attention_model demo_lib demo_model) demo_params 1 demo_problem True =
   solve (attention_model demo_lib demo_model) demo_params 2 demo_problem True"
  using deterministic_solve_ignores_seed[OF demo_flax_contract, of demo_model demo_params 1 demo_problem 2]
    demo_flax_contract by (rule conjI[rotated])

subsection \<open>C9: which nodes the inner attention of the decoder attends to\<close>

text \<open>
  Claim C9 says that the nodes marked forbidden receive zero attention weight in the inner
  attention of \<^verbatim>\<open>PointerDecoder\<close>. The source hands the forbidden-node mask to the layer
  unchanged, and the layer keeps the scores where its mask is true. In the first iteration
  of the example the mask is \<open>[True, False]\<close> (the depot, where the vehicle stands, is
  forbidden; the customer is legal): the forbidden depot keeps its own score and a positive
  weight, and it is the legal customer whose score is replaced by \<open>big_neg\<close>.
\<close>

theorem forbidden_node_attended:
  "step_mask demo_problem 1 (decode_init () demo_problem) ! 0 = [True, False] \<and>
   PointerDecoder_mha_weights big_neg [True, False] [a0, a1] ! 0 = exp a0 / (exp a0 + exp big_neg) \<and>
   PointerDecoder_mha_weights big_neg [True, False] [a0, a1] ! 1 = exp big_neg / (exp a0 + exp big_neg) \<and>
   0 < PointerDecoder_mha_weights big_neg [True, False] [a0, a1] ! 0"
proof -
  have m: "step_mask demo_problem 1 (decode_init () demo_problem) ! 0 = [True, False]"
    by (simp add: demo_eval)
  have w0: "PointerDecoder_mha_weights big_neg [True, False] [a0, a1] ! 0 = exp a0 / (exp a0 + exp big_neg)"
    and w1: "PointerDecoder_mha_weights big_neg [True, False] [a0, a1] ! 1 = exp big_neg / (exp a0 + exp big_neg)"
    by (simp_all add: PointerDecoder_mha_weights_def flax_attention_weights_def Let_def)
  have "0 < exp a0 / (exp a0 + exp big_neg)"
    by (intro divide_pos_pos add_pos_pos exp_gt_zero)
  then show ?thesis using m w0 w1 by simp
qed

end
